theory Spec2Isabelle
  imports Main "HOL-Library.Word" "HOL-Library.AList" "HOL-Library.Char_ord"
    "HOL-Library.List_Lexorder"
begin

unbundle bit_operations_syntax

section \<open>The datastore of eolso/datastore\<close>

text \<open>
  The Go package keeps a tree of collections and documents in memory and maps it to a
  directory tree: \<^verbatim>\<open>Open\<close> loads it, \<^verbatim>\<open>Close\<close> writes it. Go's \<^verbatim>\<open>[]byte\<close> is a list of
  8-bit words; a nil slice and an empty slice both have length 0 and are both \<open>[]\<close>.
\<close>

type_synonym byte = "8 word"

subsection \<open>The concurrent map\<close>

text \<open>
  Modelled from the spec: \<^verbatim>\<open>threadsafe.Map[K, V]\<close> of the package
  \<^verbatim>\<open>github.com/eolso/threadsafe\<close> is imported, its source is not part of the files read
  here. The spec (4.1) gives its operations: get (value and found flag), set (insert or
  overwrite), delete (no-op if absent), len and values; its field \<^verbatim>\<open>Data\<close> is the Go map
  itself, which the source ranges over. Every operation is read sequentially. The map is
  an association list; the order of the list stands for the order in which the Go
  runtime happens to range over the map, which Go leaves unspecified.
\<close>

type_synonym ('k, 'v) tsmap = "('k \<times> 'v) list"

definition NewMap :: "('k, 'v) tsmap" where
  "NewMap = []"

definition tsm_Get :: "('k, 'v) tsmap \<Rightarrow> 'k \<Rightarrow> 'v option" where
  "tsm_Get m k = map_of m k"

definition tsm_Set :: "'k \<Rightarrow> 'v \<Rightarrow> ('k, 'v) tsmap \<Rightarrow> ('k, 'v) tsmap" where
  "tsm_Set k v m = AList.update k v m"

definition tsm_Delete :: "'k \<Rightarrow> ('k, 'v) tsmap \<Rightarrow> ('k, 'v) tsmap" where
  "tsm_Delete k m = AList.delete k m"

definition tsm_Len :: "('k, 'v) tsmap \<Rightarrow> nat" where
  "tsm_Len m = length m"

definition tsm_Values :: "('k, 'v) tsmap \<Rightarrow> 'v list" where
  "tsm_Values m = map snd m"

subsection \<open>Errors (the package's error values)\<close>

text \<open>
  \<^verbatim>\<open>ErrInvalidDecode\<close> carries the \<^verbatim>\<open>reflect.Type\<close> of the target, \<open>None\<close> for the nil
  interface. \<^verbatim>\<open>fmt.Errorf\<close> without \<^verbatim>\<open>%w\<close> is \<open>ErrorString\<close>, with \<^verbatim>\<open>%w\<close> it is \<open>Wrapped\<close>.
  \<open>GobError\<close> is an error of \<^verbatim>\<open>encoding/gob\<close>, \<open>OsError\<close> one of package \<^verbatim>\<open>os\<close> (with
  the error number of the system call),
  \<open>Base64Error\<close> is \<^verbatim>\<open>base64.CorruptInputError\<close>; none of them is one of the sentinels.
\<close>

datatype errno = ENOENT | ENOTDIR | EISDIR | EEXIST

datatype error =
    ErrKeyNotFound
  | ErrEmptyItem
  | ErrInvalidPath
  | ErrInvalidDecode "string option"
  | ErrorString string
  | Wrapped string error
  | GobError string
  | OsError errno
  | Base64Error

text \<open>\<^verbatim>\<open>errors.Is(err, ErrEmptyItem)\<close>: the sentinel itself, or an error wrapping it.\<close>

fun is_ErrEmptyItem :: "error \<Rightarrow> bool" where
  "is_ErrEmptyItem ErrEmptyItem = True"
| "is_ErrEmptyItem (Wrapped msg e) = is_ErrEmptyItem e"
| "is_ErrEmptyItem e = False"

subsection \<open>Item and Document (document.go)\<close>

record Item =
  Key :: string
  Value :: "byte list"

text \<open>The zero value \<^verbatim>\<open>Item{}\<close>.\<close>

definition Item_zero :: Item where
  "Item_zero = \<lparr>Key = [], Value = []\<rparr>"

record Document =
  Name :: string
  data :: "(string, byte list) tsmap"

text \<open>
  The \<^verbatim>\<open>interface{}\<close> handed to \<^verbatim>\<open>Decode\<close>, as \<^verbatim>\<open>reflect\<close> sees it: the nil interface, a
  value that is not a pointer (with the name of its type), a nil pointer (with the name
  of its type), or a pointer to a variable holding a value.
\<close>

datatype 'v target =
    NilInterface
  | NonPointer string
  | NilPointer string
  | Pointer 'v

text \<open>
  \<^verbatim>\<open>encoding/gob\<close> is Go's library and a parameter of the model: \<open>gob_encode v\<close> is the
  encoder's error or the bytes it writes, \<open>gob_decode b v\<close> runs the decoder on the
  bytes \<open>b\<close> with a target variable that holds \<open>v\<close>, and gives the decoder's error, if
  any, and what the variable holds afterwards.
\<close>

record 'v gob =
  gob_encode :: "'v \<Rightarrow> string + byte list"
  gob_decode :: "byte list \<Rightarrow> 'v \<Rightarrow> string option \<times> 'v"

text \<open>\<^verbatim>\<open>Item.Decode\<close>: the error (\<open>None\<close> is Go's nil) and the target afterwards.\<close>

fun Decode :: "'v gob \<Rightarrow> Item \<Rightarrow> 'v target \<Rightarrow> error option \<times> 'v target" where
  "Decode g i NilInterface = (Some (ErrInvalidDecode None), NilInterface)"
| "Decode g i (NonPointer ty) = (Some (ErrInvalidDecode (Some ty)), NonPointer ty)"
| "Decode g i (NilPointer ty) = (Some (ErrInvalidDecode (Some ty)), NilPointer ty)"
| "Decode g i (Pointer v) =
     (if length (Value i) = 0 then (Some ErrEmptyItem, Pointer v)
      else (case gob_decode g (Value i) v of
              (None, v') \<Rightarrow> (None, Pointer v')
            | (Some msg, v') \<Rightarrow> (Some (GobError msg), Pointer v')))"

definition NewDocument :: "string \<Rightarrow> Document" where
  "NewDocument n = \<lparr>Name = n, data = NewMap\<rparr>"

definition Document_Get :: "Document \<Rightarrow> string \<Rightarrow> Item" where
  "Document_Get d key =
     (case tsm_Get (data d) key of
        None \<Rightarrow> Item_zero
      | Some b \<Rightarrow> \<lparr>Key = key, Value = b\<rparr>)"

text \<open>
  \<^verbatim>\<open>Document.GetAll\<close>: \<^verbatim>\<open>make([]Item, d.data.Len())\<close> is a slice of \<^verbatim>\<open>Len()\<close> zero Items, and
  the loop appends one Item per field behind them.
\<close>

definition Document_GetAll :: "Document \<Rightarrow> Item list" where
  "Document_GetAll d =
     foldl (\<lambda>items (k, v). items @ [\<lparr>Key = k, Value = v\<rparr>])
       (replicate (tsm_Len (data d)) Item_zero) (data d)"

definition Document_Set :: "'v gob \<Rightarrow> Document \<Rightarrow> string \<Rightarrow> 'v \<Rightarrow> error option \<times> Document" where
  "Document_Set g d key v =
     (case gob_encode g v of
        Inl msg \<Rightarrow> (Some (Wrapped ''could not store value in document: '' (GobError msg)), d)
      | Inr b \<Rightarrow> (None, d\<lparr>data := tsm_Set key b (data d)\<rparr>))"

definition Document_RawSet :: "Document \<Rightarrow> string \<Rightarrow> byte list \<Rightarrow> Document" where
  "Document_RawSet d key b = d\<lparr>data := tsm_Set key b (data d)\<rparr>"

definition Document_Delete :: "Document \<Rightarrow> string \<Rightarrow> Document" where
  "Document_Delete d key = d\<lparr>data := tsm_Delete key (data d)\<rparr>"

subsection \<open>The default-value helpers\<close>

text \<open>
  \<^verbatim>\<open>def\<close> is a Go function value: it may do anything, so it is a function on the
  caller's state \<open>'s\<close> that also gives the default. A call of \<^verbatim>\<open>def()\<close> is an application
  of \<open>def\<close> to the state; where the helper does not call it, the state comes back as
  it was. \<open>zero\<close> is the zero value of \<^verbatim>\<open>V\<close> (\<^verbatim>\<open>var v V\<close>).
\<close>

definition GetWithDefault ::
  "'v gob \<Rightarrow> 'v \<Rightarrow> Document \<Rightarrow> string \<Rightarrow> ('s \<Rightarrow> 'v \<times> 's) \<Rightarrow> 's \<Rightarrow> 'v \<times> 's" where
  "GetWithDefault g zero doc key def s =
     (case Decode g (Document_Get doc key) (Pointer zero) of
        (Some err, Pointer v) \<Rightarrow> if is_ErrEmptyItem err then def s else (v, s)
      | (err, Pointer v) \<Rightarrow> (v, s)
      | (err, t) \<Rightarrow> (zero, s))"

definition GetSetWithDefault ::
  "'v gob \<Rightarrow> 'v \<Rightarrow> Document \<Rightarrow> string \<Rightarrow> ('s \<Rightarrow> 'v \<times> 's) \<Rightarrow> 's
     \<Rightarrow> ('v \<times> error option) \<times> Document \<times> 's" where
  "GetSetWithDefault g zero doc key def s =
     (case Decode g (Document_Get doc key) (Pointer zero) of
        (Some err, Pointer v) \<Rightarrow>
          if is_ErrEmptyItem err
          then (case def s of (v', s') \<Rightarrow>
                  (case Document_Set g doc key v' of (err', doc') \<Rightarrow> ((v', err'), doc', s')))
          else ((v, Some err), doc, s)
      | (err, Pointer v) \<Rightarrow> ((v, err), doc, s)
      | (err, t) \<Rightarrow> ((zero, err), doc, s))"

subsection \<open>Collection (collection.go)\<close>

text \<open>
  A \<^verbatim>\<open>*Document\<close> or \<^verbatim>\<open>*Collection\<close> held in a map is the value it points to: a
  collection owns its children. A \<^verbatim>\<open>*Document\<close> argument that may be nil is an option.
\<close>

datatype Collection =
  Collection (name: string) (documents: "(string, Document) tsmap")
    (collections: "(string, Collection) tsmap")

definition newCollection :: "string \<Rightarrow> Collection" where
  "newCollection n = Collection n NewMap NewMap"

text \<open>\<^verbatim>\<open>Collection.Get\<close>: \<open>None\<close> is the result \<^verbatim>\<open>(nil, false)\<close>, not found.\<close>

definition Collection_Get :: "Collection \<Rightarrow> string \<Rightarrow> Document option" where
  "Collection_Get c key = tsm_Get (documents c) key"

definition Collection_GetAll :: "Collection \<Rightarrow> Document list" where
  "Collection_GetAll c = tsm_Values (documents c)"

definition Collection_Set :: "Collection \<Rightarrow> string \<Rightarrow> Document option \<Rightarrow> error option \<times> Collection" where
  "Collection_Set c key document =
     (case document of
        None \<Rightarrow> (Some (ErrorString ''cannot insert nil document into collection''), c)
      | Some d \<Rightarrow> (None, Collection (name c) (tsm_Set key d (documents c)) (collections c)))"

definition Collection_Delete :: "Collection \<Rightarrow> string \<Rightarrow> Collection" where
  "Collection_Delete c key = Collection (name c) (tsm_Delete key (documents c)) (collections c)"

definition Collection_DeleteCollection :: "Collection \<Rightarrow> string \<Rightarrow> Collection" where
  "Collection_DeleteCollection c key =
     Collection (name c) (documents c) (tsm_Delete key (collections c))"

text \<open>The get-or-create accessors give the child and the collection afterwards.\<close>

definition Collection_Document :: "Collection \<Rightarrow> string \<Rightarrow> Document \<times> Collection" where
  "Collection_Document c n =
     (case tsm_Get (documents c) n of
        Some document \<Rightarrow> (document, c)
      | None \<Rightarrow> (NewDocument n,
                 Collection (name c) (tsm_Set n (NewDocument n) (documents c)) (collections c)))"

definition Collection_Collection :: "Collection \<Rightarrow> string \<Rightarrow> Collection \<times> Collection" where
  "Collection_Collection c n =
     (case tsm_Get (collections c) n of
        Some collection \<Rightarrow> (collection, c)
      | None \<Rightarrow> (newCollection n,
                 Collection (name c) (documents c) (tsm_Set n (newCollection n) (collections c))))"

subsection \<open>Path strings (path/filepath on Unix)\<close>

text \<open>
  A path is the Go string. \<open>elems\<close> gives the elements between separators.
  \<^verbatim>\<open>filepath.Clean\<close> drops empty and \<open>.\<close> elements, lets \<open>..\<close> remove the element before it,
  drops \<open>..\<close> at the start of a rooted path and keeps it at the start of a relative
  one; the empty result is \<open>.\<close>. \<^verbatim>\<open>filepath.Join\<close> is used with two elements only: it skips
  leading empty elements and cleans the rest joined by separators. \<^verbatim>\<open>filepath.Base\<close> is the
  last element after trailing separators are stripped.
\<close>

fun elems :: "string \<Rightarrow> string list" where
  "elems [] = [[]]"
| "elems (c # cs) =
     (if c = CHR ''/'' then [] # elems cs
      else (case elems cs of e # es \<Rightarrow> (c # e) # es | [] \<Rightarrow> [[c]]))"

fun join_elems :: "string list \<Rightarrow> string" where
  "join_elems [] = []"
| "join_elems [e] = e"
| "join_elems (e # es) = e @ CHR ''/'' # join_elems es"

definition rooted :: "string \<Rightarrow> bool" where
  "rooted p = (case p of [] \<Rightarrow> False | c # cs \<Rightarrow> c = CHR ''/'')"

fun clean_elems :: "bool \<Rightarrow> string list \<Rightarrow> string list \<Rightarrow> string list" where
  "clean_elems r out [] = out"
| "clean_elems r out (e # es) =
     (if e = [] \<or> e = ''.'' then clean_elems r out es
      else if e = ''..'' then
        (if out \<noteq> [] \<and> last out \<noteq> ''..'' then clean_elems r (butlast out) es
         else if r then clean_elems r out es
         else clean_elems r (out @ [''..'']) es)
      else clean_elems r (out @ [e]) es)"

definition Clean :: "string \<Rightarrow> string" where
  "Clean p =
     (let out = clean_elems (rooted p) [] (elems p)
      in if rooted p then CHR ''/'' # join_elems out
         else if out = [] then ''.'' else join_elems out)"

definition Join :: "string \<Rightarrow> string \<Rightarrow> string" where
  "Join a b = (if a \<noteq> [] then Clean (a @ CHR ''/'' # b) else if b \<noteq> [] then Clean b else [])"

definition Base :: "string \<Rightarrow> string" where
  "Base p =
     (if p = [] then ''.''
      else (let q = rev (dropWhile (\<lambda>c. c = CHR ''/'') (rev p))
            in if q = [] then ''/'' else last (elems q)))"

subsection \<open>The file system\<close>

text \<open>
  The file system is a tree of directories and files with the working directory of the
  process; a file holds a string of bytes. An entry of a directory counts when its name
  is one a file can have (not empty, not \<open>.\<close> or \<open>..\<close>, no separator); of two entries with
  one name the first counts. Permissions, links and full disks are left out.

  The system resolves a path element by element, from the root for a rooted path and
  from the working directory otherwise: before each element the place reached must be a
  directory (\<^verbatim>\<open>ENOENT\<close> if it is missing, \<^verbatim>\<open>ENOTDIR\<close> if it is a file); an empty element
  or \<open>.\<close> stays, \<open>..\<close> goes to the parent (the root is its own parent), a name goes to
  the entry, which may be missing when it is the last element. The empty path is
  \<^verbatim>\<open>ENOENT\<close>.

  \<^verbatim>\<open>os.Stat\<close>, \<^verbatim>\<open>os.ReadDir\<close> (sorted by name) and \<^verbatim>\<open>os.ReadFile\<close> look at the place a path
  resolves to; \<^verbatim>\<open>os.WriteFile\<close> creates the file there or replaces its content;
  \<^verbatim>\<open>os.Mkdir\<close> creates one directory, after trailing separators are dropped, and fails
  with \<^verbatim>\<open>EEXIST\<close> when the place exists. \<^verbatim>\<open>os.MkdirAll\<close> is Go's function: nothing to do
  when the path is a directory, \<^verbatim>\<open>ENOTDIR\<close> when it is a file; otherwise it runs on the
  parent (the path up to the separator before its last element), if that is not empty,
  then calls \<^verbatim>\<open>Mkdir\<close>, and overlooks the error of \<^verbatim>\<open>Mkdir\<close> when the path is a directory
  by then.
\<close>

datatype node = File string | Dir "(string \<times> node) list"

record filesys =
  root :: node
  cwd :: "string list"

definition valid_name :: "string \<Rightarrow> bool" where
  "valid_name n \<longleftrightarrow> n \<noteq> [] \<and> n \<noteq> ''.'' \<and> n \<noteq> ''..'' \<and> CHR ''/'' \<notin> set n"

definition child :: "(string \<times> node) list \<Rightarrow> string \<Rightarrow> node option" where
  "child es n = (if valid_name n then map_of es n else None)"

fun lookup :: "node \<Rightarrow> string list \<Rightarrow> errno + node" where
  "lookup n [] = Inr n"
| "lookup (File c) (e # p) = Inl ENOTDIR"
| "lookup (Dir es) (e # p) =
     (case child es e of None \<Rightarrow> Inl ENOENT | Some c \<Rightarrow> lookup c p)"

fun os_walk :: "node \<Rightarrow> string list \<Rightarrow> string list \<Rightarrow> errno + string list" where
  "os_walk r at [] = Inr at"
| "os_walk r at (e # es) =
     (case lookup r at of
        Inl err \<Rightarrow> Inl err
      | Inr (File c) \<Rightarrow> Inl ENOTDIR
      | Inr (Dir x) \<Rightarrow>
          (if e = [] \<or> e = ''.'' then os_walk r at es
           else if e = ''..'' then os_walk r (butlast at) es
           else os_walk r (at @ [e]) es))"

definition resolve :: "filesys \<Rightarrow> string \<Rightarrow> errno + string list" where
  "resolve fs p =
     (if p = [] then Inl ENOENT
      else os_walk (root fs) (if rooted p then [] else cwd fs) (elems p))"

fun add_dir :: "node \<Rightarrow> string list \<Rightarrow> errno + node" where
  "add_dir (File c) q = Inl ENOTDIR"
| "add_dir (Dir es) [] = Inl EEXIST"
| "add_dir (Dir es) (e # q) =
     (case child es e of
        None \<Rightarrow> (if q = [] then Inr (Dir (AList.update e (Dir []) es)) else Inl ENOENT)
      | Some c \<Rightarrow>
          (if q = [] then Inl EEXIST
           else (case add_dir c q of
                   Inl err \<Rightarrow> Inl err
                 | Inr c' \<Rightarrow> Inr (Dir (AList.update e c' es)))))"

fun writeFile :: "node \<Rightarrow> string list \<Rightarrow> string \<Rightarrow> errno + node" where
  "writeFile (File c) [] content = Inr (File content)"
| "writeFile (Dir es) [] content = Inl EISDIR"
| "writeFile (File c) (e # p) content = Inl ENOTDIR"
| "writeFile (Dir es) (e # p) content =
     (case child es e of
        None \<Rightarrow> (if p = [] then Inr (Dir (AList.update e (File content) es)) else Inl ENOENT)
      | Some c \<Rightarrow>
          (case writeFile c p content of
             Inl err \<Rightarrow> Inl err
           | Inr c' \<Rightarrow> Inr (Dir (AList.update e c' es))))"

record DirEntry =
  EntryName :: string
  IsDir :: bool

definition dir_entries :: "(string \<times> node) list \<Rightarrow> DirEntry list" where
  "dir_entries es =
     map (\<lambda>n. \<lparr>EntryName = n, IsDir = (case map_of es n of Some (Dir x) \<Rightarrow> True | _ \<Rightarrow> False)\<rparr>)
       (sort (remdups (filter valid_name (map fst es))))"

definition node_at :: "filesys \<Rightarrow> string \<Rightarrow> errno + node" where
  "node_at fs p =
     (case resolve fs p of
        Inl e \<Rightarrow> Inl e
      | Inr q \<Rightarrow> lookup (root fs) q)"

definition Stat :: "filesys \<Rightarrow> string \<Rightarrow> errno + bool" where
  "Stat fs p =
     (case node_at fs p of
        Inl e \<Rightarrow> Inl e
      | Inr (File c) \<Rightarrow> Inr False
      | Inr (Dir es) \<Rightarrow> Inr True)"

definition ReadDir :: "filesys \<Rightarrow> string \<Rightarrow> errno + DirEntry list" where
  "ReadDir fs p =
     (case node_at fs p of
        Inl e \<Rightarrow> Inl e
      | Inr (File c) \<Rightarrow> Inl ENOTDIR
      | Inr (Dir es) \<Rightarrow> Inr (dir_entries es))"

definition ReadFile :: "filesys \<Rightarrow> string \<Rightarrow> errno + string" where
  "ReadFile fs p =
     (case node_at fs p of
        Inl e \<Rightarrow> Inl e
      | Inr (File c) \<Rightarrow> Inr c
      | Inr (Dir es) \<Rightarrow> Inl EISDIR)"

definition WriteFile :: "filesys \<Rightarrow> string \<Rightarrow> string \<Rightarrow> errno + filesys" where
  "WriteFile fs p content =
     (case resolve fs p of
        Inl e \<Rightarrow> Inl e
      | Inr q \<Rightarrow>
          (case writeFile (root fs) q content of
             Inl e \<Rightarrow> Inl e
           | Inr r \<Rightarrow> Inr (fs\<lparr>root := r\<rparr>)))"

definition strip_slashes :: "string \<Rightarrow> string" where
  "strip_slashes p = rev (dropWhile (\<lambda>c. c = CHR ''/'') (rev p))"

definition Mkdir :: "filesys \<Rightarrow> string \<Rightarrow> errno + filesys" where
  "Mkdir fs p =
     (if p = [] then Inl ENOENT
      else (case resolve fs (if strip_slashes p = [] then ''/'' else strip_slashes p) of
              Inl e \<Rightarrow> Inl e
            | Inr q \<Rightarrow>
                (case add_dir (root fs) q of
                   Inl e \<Rightarrow> Inl e
                 | Inr r \<Rightarrow> Inr (fs\<lparr>root := r\<rparr>))))"

definition parent_of :: "string \<Rightarrow> string" where
  "parent_of p =
     rev (tl (dropWhile (\<lambda>c. c \<noteq> CHR ''/'') (dropWhile (\<lambda>c. c = CHR ''/'') (rev p))))"

function MkdirAll :: "filesys \<Rightarrow> string \<Rightarrow> errno + filesys" where
  "MkdirAll fs p =
     (case Stat fs p of
        Inr isdir \<Rightarrow> (if isdir then Inr fs else Inl ENOTDIR)
      | Inl e0 \<Rightarrow>
          (case (if parent_of p \<noteq> [] then MkdirAll fs (parent_of p) else Inr fs) of
             Inl e \<Rightarrow> Inl e
           | Inr fs1 \<Rightarrow>
               (case Mkdir fs1 p of
                  Inr fs2 \<Rightarrow> Inr fs2
                | Inl e \<Rightarrow>
                    (case Stat fs1 p of
                       Inr isdir \<Rightarrow> (if isdir then Inr fs1 else Inl e)
                     | Inl e1 \<Rightarrow> Inl e))))"
  by pat_completeness auto
termination
proof (relation "measure (\<lambda>(fs, p). length p)")
  show "wf (measure (\<lambda>(fs, p). length p))" by simp
next
  fix fs :: filesys and p :: string and e0 :: errno
  assume ne: "parent_of p \<noteq> []"
  let ?a = "dropWhile (\<lambda>c. c = CHR ''/'') (rev p)"
  let ?d = "dropWhile (\<lambda>c. c \<noteq> CHR ''/'') ?a"
  have pd: "parent_of p = rev (tl ?d)" unfolding parent_of_def by (rule refl)
  have "tl ?d \<noteq> []" using ne unfolding pd by (metis rev_is_Nil_conv)
  then have "?d \<noteq> []" by (metis list.sel(2))
  then have 1: "length (tl ?d) < length ?d" by (metis diff_less length_greater_0_conv length_tl zero_less_one)
  have 2: "length ?d \<le> length ?a" by (rule length_dropWhile_le)
  have 3: "length ?a \<le> length (rev p)" by (rule length_dropWhile_le)
  have 4: "length (rev p) = length p" by (rule length_rev)
  have 5: "length (parent_of p) = length (tl ?d)" unfolding pd by (rule length_rev)
  have "length (parent_of p) < length p" using 1 2 3 4 5 by linarith
  then show "((fs, parent_of p), fs, p) \<in> measure (\<lambda>(fs, p). length p)" by simp
qed

declare MkdirAll.simps [simp del]

subsection \<open>Standard base64 (encoding/base64, StdEncoding)\<close>

text \<open>
  \<^verbatim>\<open>EncodeToString\<close> turns three bytes into four characters of the alphabet and pads the
  last group with \<open>=\<close>. \<^verbatim>\<open>DecodeString\<close> reads quanta of four characters, skips line
  breaks, accepts padding only to end the last quantum, and refuses everything else
  (\<open>None\<close> is \<^verbatim>\<open>CorruptInputError\<close>). The 24-bit value of a quantum is a natural number:
  Go's shifts and ors of the bytes do not overflow a \<^verbatim>\<open>uint\<close>.
\<close>

definition encodeStd :: string where
  "encodeStd = ''ABCDEFGHIJKLMNOPQRSTUVWXYZabcdefghijklmnopqrstuvwxyz0123456789+/''"

definition encode_char :: "nat \<Rightarrow> char" where
  "encode_char n = encodeStd ! (n mod 64)"

definition decodeMap :: "char \<Rightarrow> nat option" where
  "decodeMap c = map_of (zip encodeStd [0..<64]) c"

fun EncodeToString :: "byte list \<Rightarrow> string" where
  "EncodeToString [] = []"
| "EncodeToString [a] =
     (let val = unat a * 65536
      in [encode_char (val div 262144), encode_char (val div 4096), CHR ''='', CHR ''=''])"
| "EncodeToString [a, b] =
     (let val = unat a * 65536 + unat b * 256
      in [encode_char (val div 262144), encode_char (val div 4096), encode_char (val div 64),
          CHR ''=''])"
| "EncodeToString (a # b # c # src) =
     (let val = unat a * 65536 + unat b * 256 + unat c
      in [encode_char (val div 262144), encode_char (val div 4096), encode_char (val div 64),
          encode_char val] @ EncodeToString src)"

definition is_newline :: "char \<Rightarrow> bool" where
  "is_newline c \<longleftrightarrow> c = CHR 0x0A \<or> c = CHR 0x0D"

text \<open>The bytes of a quantum of \<open>dlen\<close> sextets: \<open>dlen - 1\<close> bytes of the 24-bit value.\<close>

definition quantum_bytes :: "nat list \<Rightarrow> byte list" where
  "quantum_bytes dbuf =
     (let val = (dbuf @ [0, 0, 0, 0]) ! 0 * 262144 + (dbuf @ [0, 0, 0, 0]) ! 1 * 4096
                + (dbuf @ [0, 0, 0, 0]) ! 2 * 64 + (dbuf @ [0, 0, 0, 0]) ! 3
      in take (length dbuf - 1) [of_nat (val div 65536), of_nat (val div 256), of_nat val])"

fun decode_from :: "nat list \<Rightarrow> string \<Rightarrow> byte list option" where
  "decode_from dbuf [] = (if dbuf = [] then Some [] else None)"
| "decode_from dbuf (c # src) =
     (case decodeMap c of
        Some out \<Rightarrow>
          (if length dbuf = 3
           then (case decode_from [] src of
                   None \<Rightarrow> None
                 | Some rest \<Rightarrow> Some (quantum_bytes (dbuf @ [out]) @ rest))
           else decode_from (dbuf @ [out]) src)
      | None \<Rightarrow>
          (if is_newline c then decode_from dbuf src
           else if c \<noteq> CHR ''='' then None
           else if length dbuf < 2 then None
           else if length dbuf = 2 then
             (case dropWhile is_newline src of
                [] \<Rightarrow> None
              | c' # src' \<Rightarrow>
                  (if c' \<noteq> CHR ''='' then None
                   else if dropWhile is_newline src' \<noteq> [] then None
                   else Some (quantum_bytes dbuf)))
           else if dropWhile is_newline src \<noteq> [] then None
           else Some (quantum_bytes dbuf)))"

definition DecodeString :: "string \<Rightarrow> byte list option" where
  "DecodeString s = decode_from [] s"


subsection \<open>Datastore\<close>

text \<open>
  The field \<^verbatim>\<open>collections\<close> of the Go struct is \<open>ds_collections\<close> here (the name is taken
  by the field of \<open>Collection\<close>); the mutex is left out, every call is read sequentially.
\<close>

record Datastore =
  path :: string
  ds_collections :: "(string, Collection) tsmap"

definition NewDatastore :: "string \<Rightarrow> Datastore" where
  "NewDatastore p = \<lparr>path = Clean p, ds_collections = NewMap\<rparr>"

definition Datastore_Collection :: "Datastore \<Rightarrow> string \<Rightarrow> Collection \<times> Datastore" where
  "Datastore_Collection d n =
     (case tsm_Get (ds_collections d) n of
        Some collection \<Rightarrow> (collection, d)
      | None \<Rightarrow> (newCollection n,
                 d\<lparr>ds_collections := tsm_Set n (newCollection n) (ds_collections d)\<rparr>))"


subsection \<open>Open\<close>

text \<open>
  The loop of the document branch: every file of the directory is read, decoded and
  stored with \<^verbatim>\<open>RawSet\<close>; the first error ends it.
\<close>

fun read_fields :: "filesys \<Rightarrow> string \<Rightarrow> Document \<Rightarrow> DirEntry list \<Rightarrow> error option \<times> Document" where
  "read_fields fs p document [] = (None, document)"
| "read_fields fs p document (documentEntry # rest) =
     (case ReadFile fs (Join p (EntryName documentEntry)) of
        Inl e \<Rightarrow> (Some (OsError e), document)
      | Inr b \<Rightarrow>
          (case DecodeString b of
             None \<Rightarrow> (Some Base64Error, document)
           | Some decodedBytes \<Rightarrow>
               read_fields fs p (Document_RawSet document (EntryName documentEntry) decodedBytes)
                 rest))"

text \<open>
  \<^verbatim>\<open>traverseCollection\<close> works on pointers: \<open>collection\<close> is the child that
  \<open>previousCollection\<close> holds, and what the function does to one object is seen through
  every pointer to it. Here the function hands back the new values of both objects, and
  the new value of a child is put back into the slot that holds it, if the slot is still
  there (the document branch removes it).
\<close>

definition put_document :: "Collection \<Rightarrow> string \<Rightarrow> Document \<Rightarrow> Collection" where
  "put_document c n document =
     (case tsm_Get (documents c) n of
        None \<Rightarrow> c
      | Some old \<Rightarrow> Collection (name c) (tsm_Set n document (documents c)) (collections c))"

definition put_collection :: "Collection \<Rightarrow> string \<Rightarrow> Collection \<Rightarrow> Collection" where
  "put_collection c n child_c =
     (case tsm_Get (collections c) n of
        None \<Rightarrow> c
      | Some old \<Rightarrow> Collection (name c) (documents c) (tsm_Set n child_c (collections c)))"

subsection \<open>Resolving joined paths\<close>

text \<open>
  Where a path resolves to a directory, the path joined with the name of an entry
  resolves to the entry: cleaning removes only steps that lead back to a directory
  already passed. This is what makes the traversal of \<^verbatim>\<open>Open\<close> end: every recursive
  call reads a directory strictly inside the one before.
\<close>

lemma elems_nonempty [simp]: "elems s \<noteq> []"
  by (induction s) (auto split: list.splits)

lemma elems_no_sep: "e \<in> set (elems s) \<Longrightarrow> CHR ''/'' \<notin> set e"
  by (induction s arbitrary: e) (auto split: list.splits if_splits)

lemma elems_append_sep: "elems (a @ CHR ''/'' # b) = elems a @ elems b"
  by (induction a) (auto split: list.splits)

lemma elems_no_sep_id: "CHR ''/'' \<notin> set n \<Longrightarrow> elems n = [n]"
  by (induction n) auto

lemma elems_join_elems:
  "out \<noteq> [] \<Longrightarrow> \<forall>e\<in>set out. CHR ''/'' \<notin> set e \<Longrightarrow> elems (join_elems out) = out"
proof (induction out rule: join_elems.induct)
  case 1
  then show ?case by simp
next
  case (2 e)
  then show ?case by (simp add: elems_no_sep_id)
next
  case (3 e v va)
  then show ?case by (simp add: elems_append_sep elems_no_sep_id)
qed

text \<open>
  The place that a list of path elements names from a starting directory when every
  directory on the way exists: \<open>..\<close> removes the last element, empty and \<open>.\<close> elements
  change nothing.
\<close>

fun lex_walk :: "string list \<Rightarrow> string list \<Rightarrow> string list" where
  "lex_walk at [] = at"
| "lex_walk at (e # es) =
     (if e = [] \<or> e = ''.'' then lex_walk at es
      else if e = ''..'' then lex_walk (butlast at) es
      else lex_walk (at @ [e]) es)"

definition lex_resolve :: "string list \<Rightarrow> string \<Rightarrow> string list" where
  "lex_resolve wd p = lex_walk (if rooted p then [] else wd) (elems p)"

definition normal :: "string \<Rightarrow> bool" where
  "normal e \<longleftrightarrow> e \<noteq> [] \<and> e \<noteq> ''.'' \<and> e \<noteq> ''..''"

lemma lex_walk_append: "lex_walk at (xs @ ys) = lex_walk (lex_walk at xs) ys"
  by (induction xs arbitrary: at) auto

lemma lex_walk_normal: "normal e \<Longrightarrow> lex_walk at [e] = at @ [e]"
  by (simp add: normal_def)

lemma lex_walk_snoc_normal: "normal e \<Longrightarrow> lex_walk at (xs @ [e]) = lex_walk at xs @ [e]"
  by (simp add: lex_walk_append normal_def)



lemma clean_elems_no_sep:
  "\<forall>e\<in>set out. CHR ''/'' \<notin> set e \<Longrightarrow> \<forall>e\<in>set es. CHR ''/'' \<notin> set e \<Longrightarrow>
   e' \<in> set (clean_elems r out es) \<Longrightarrow> CHR ''/'' \<notin> set e'"
proof (induction r out es rule: clean_elems.induct)
  case (1 r out)
  then show ?case by simp
next
  case (2 r out e es)
  have b: "\<forall>e\<in>set (butlast out). CHR ''/'' \<notin> set e"
    using "2.prems"(1) by (meson in_set_butlastD)
  have t: "\<forall>e\<in>set es. CHR ''/'' \<notin> set e" "CHR ''/'' \<notin> set e"
    using "2.prems"(2) by simp_all
  consider (skip) "e = [] \<or> e = ''.''"
    | (up) "\<not> (e = [] \<or> e = ''.'')" "e = ''..''" "out \<noteq> [] \<and> last out \<noteq> ''..''"
    | (top) "\<not> (e = [] \<or> e = ''.'')" "e = ''..''" "\<not> (out \<noteq> [] \<and> last out \<noteq> ''..'')" "r"
    | (keep) "\<not> (e = [] \<or> e = ''.'')" "e = ''..''" "\<not> (out \<noteq> [] \<and> last out \<noteq> ''..'')" "\<not> r"
    | (name) "\<not> (e = [] \<or> e = ''.'')" "e \<noteq> ''..''"
    by blast
  then show ?case
  proof cases
    case skip
    then show ?thesis using "2.IH"(1) "2.prems" t by simp
  next
    case up
    then show ?thesis using "2.IH"(2) [OF up] b t "2.prems"(3) by simp
  next
    case top
    then show ?thesis using "2.IH"(3) [OF top] "2.prems" t by auto
  next
    case keep
    then show ?thesis using "2.IH"(4) [OF keep] "2.prems" t by auto
  next
    case name
    then show ?thesis using "2.IH"(5) [OF name] "2.prems" t by simp
  qed
qed


definition clean_inv :: "bool \<Rightarrow> string list \<Rightarrow> bool" where
  "clean_inv r out \<longleftrightarrow> (\<forall>e\<in>set out. e \<noteq> [] \<and> e \<noteq> ''.'' \<and> (r \<longrightarrow> e \<noteq> ''..''))"

lemma clean_inv_butlast: "clean_inv r out \<Longrightarrow> clean_inv r (butlast out)"
  unfolding clean_inv_def by (meson in_set_butlastD)

lemma clean_inv_snoc:
  "clean_inv r out \<Longrightarrow> e \<noteq> [] \<Longrightarrow> e \<noteq> ''.'' \<Longrightarrow> (r \<longrightarrow> e \<noteq> ''..'') \<Longrightarrow> clean_inv r (out @ [e])"
  unfolding clean_inv_def by simp

lemma lex_walk_butlast:
  assumes "clean_inv r out" and "out \<noteq> []" and "last out \<noteq> ''..''"
  shows "butlast (lex_walk at out) = lex_walk at (butlast out)"
proof -
  have n: "normal (last out)"
    using assms unfolding clean_inv_def normal_def by (meson last_in_set)
  have "lex_walk at out = lex_walk at (butlast out @ [last out])"
    using assms(2) by simp
  also have "\<dots> = lex_walk at (butlast out) @ [last out]"
    by (rule lex_walk_snoc_normal [OF n])
  finally show ?thesis by simp
qed

lemma lex_walk_rooted_inv: "clean_inv True out \<Longrightarrow> lex_walk at out = at @ out"
proof (induction out arbitrary: at)
  case Nil
  then show ?case by simp
next
  case (Cons e out)
  then have "clean_inv True out" and "e \<noteq> []" "e \<noteq> ''.''" "e \<noteq> ''..''"
    by (simp_all add: clean_inv_def)
  then show ?case using Cons.IH [of "at @ [e]"] by simp
qed

lemma lex_walk_clean_elems:
  "clean_inv r out \<Longrightarrow> (r \<Longrightarrow> at = []) \<Longrightarrow>
   lex_walk at (clean_elems r out es) = lex_walk (lex_walk at out) es"
proof (induction r out es rule: clean_elems.induct)
  case (1 r out)
  then show ?case by simp
next
  case (2 r out e es)
  consider (skip) "e = [] \<or> e = ''.''"
    | (up) "\<not> (e = [] \<or> e = ''.'')" "e = ''..''" "out \<noteq> [] \<and> last out \<noteq> ''..''"
    | (top) "\<not> (e = [] \<or> e = ''.'')" "e = ''..''" "\<not> (out \<noteq> [] \<and> last out \<noteq> ''..'')" "r"
    | (keep) "\<not> (e = [] \<or> e = ''.'')" "e = ''..''" "\<not> (out \<noteq> [] \<and> last out \<noteq> ''..'')" "\<not> r"
    | (name) "\<not> (e = [] \<or> e = ''.'')" "e \<noteq> ''..''"
    by blast
  then show ?case
  proof cases
    case skip
    then show ?thesis using "2.IH"(1) "2.prems" by auto
  next
    case up
    have "lex_walk at (clean_elems r out (e # es)) = lex_walk at (clean_elems r (butlast out) es)"
      using up by simp
    also have "\<dots> = lex_walk (lex_walk at (butlast out)) es"
      using "2.IH"(2) [OF up] clean_inv_butlast [OF "2.prems"(1)] "2.prems"(2) by simp
    also have "\<dots> = lex_walk (butlast (lex_walk at out)) es"
      using lex_walk_butlast [OF "2.prems"(1)] up by simp
    also have "\<dots> = lex_walk (lex_walk at out) (e # es)"
      using up by simp
    finally show ?thesis .
  next
    case top
    have o: "out = []"
    proof (rule ccontr)
      assume "out \<noteq> []"
      then have "last out = ''..''" "last out \<in> set out"
        using top last_in_set [of out] by auto
      then show False using "2.prems"(1) top(4) unfolding clean_inv_def by auto
    qed
    have a: "at = []" using "2.prems"(2) top(4) by simp
    have "lex_walk at (clean_elems r out (e # es)) = lex_walk at (clean_elems r out es)"
      using top by auto
    also have "\<dots> = lex_walk (lex_walk at out) es"
      using "2.IH"(3) [OF top] "2.prems" by simp
    also have "\<dots> = lex_walk (lex_walk at out) (e # es)"
      using top o a by simp
    finally show ?thesis .
  next
    case keep
    have i: "clean_inv r (out @ [''..''])"
      using "2.prems"(1) keep(4) by (simp add: clean_inv_def)
    have "lex_walk at (clean_elems r out (e # es)) = lex_walk at (clean_elems r (out @ [''..'']) es)"
      using keep by auto
    also have "\<dots> = lex_walk (lex_walk at (out @ [''..''])) es"
      using "2.IH"(4) [OF keep i] "2.prems"(2) by simp
    also have "\<dots> = lex_walk (lex_walk at out) (e # es)"
      using keep by (simp add: lex_walk_append)
    finally show ?thesis .
  next
    case name
    have i: "clean_inv r (out @ [e])"
      using "2.prems"(1) name by (simp add: clean_inv_def)
    have "lex_walk at (clean_elems r out (e # es)) = lex_walk at (clean_elems r (out @ [e]) es)"
      using name by auto
    also have "\<dots> = lex_walk (lex_walk at (out @ [e])) es"
      using "2.IH"(5) [OF name i] "2.prems"(2) by simp
    also have "\<dots> = lex_walk (lex_walk at out) (e # es)"
      using name by (simp add: lex_walk_append)
    finally show ?thesis .
  qed
qed

lemma clean_elems_inv:
  "clean_inv r out \<Longrightarrow> clean_inv r (clean_elems r out es)"
proof (induction r out es rule: clean_elems.induct)
  case (1 r out)
  then show ?case by simp
next
  case (2 r out e es)
  consider (skip) "e = [] \<or> e = ''.''"
    | (up) "\<not> (e = [] \<or> e = ''.'')" "e = ''..''" "out \<noteq> [] \<and> last out \<noteq> ''..''"
    | (top) "\<not> (e = [] \<or> e = ''.'')" "e = ''..''" "\<not> (out \<noteq> [] \<and> last out \<noteq> ''..'')" "r"
    | (keep) "\<not> (e = [] \<or> e = ''.'')" "e = ''..''" "\<not> (out \<noteq> [] \<and> last out \<noteq> ''..'')" "\<not> r"
    | (name) "\<not> (e = [] \<or> e = ''.'')" "e \<noteq> ''..''"
    by blast
  then show ?case
  proof cases
    case skip
    then show ?thesis using "2.IH"(1) "2.prems" by auto
  next
    case up
    then show ?thesis using "2.IH"(2) [OF up clean_inv_butlast [OF "2.prems"]] by simp
  next
    case top
    then show ?thesis using "2.IH"(3) [OF top "2.prems"] by auto
  next
    case keep
    have i: "clean_inv r (out @ [''..''])"
      using "2.prems"(1) keep(4) by (simp add: clean_inv_def)
    show ?thesis using "2.IH"(4) [OF keep i] keep by auto
  next
    case name
    have i: "clean_inv r (out @ [e])"
      using "2.prems"(1) name by (simp add: clean_inv_def)
    show ?thesis using "2.IH"(5) [OF name i] name by auto
  qed
qed

lemma rooted_join_elems:
  "clean_inv r out \<Longrightarrow> \<forall>e\<in>set out. CHR ''/'' \<notin> set e \<Longrightarrow> \<not> rooted (join_elems out)"
proof (cases out rule: join_elems.cases)
  case 1
  then show ?thesis by (simp add: rooted_def)
next
  case (2 e)
  assume "clean_inv r out" "\<forall>e\<in>set out. CHR ''/'' \<notin> set e"
  with 2 show ?thesis by (cases e) (auto simp: rooted_def clean_inv_def)
next
  case (3 e v va)
  assume "clean_inv r out" "\<forall>e\<in>set out. CHR ''/'' \<notin> set e"
  with 3 show ?thesis by (cases e) (auto simp: rooted_def clean_inv_def)
qed

lemma lex_walk_elems_join_elems:
  assumes "\<forall>e\<in>set out. CHR ''/'' \<notin> set e"
  shows "lex_walk at (elems (join_elems out)) = lex_walk at out"
proof (cases "out = []")
  case True
  then show ?thesis by simp
next
  case False
  then show ?thesis using elems_join_elems [OF False assms] by simp
qed

lemma lex_resolve_Clean: "lex_resolve (cwd fs) (Clean p) = lex_resolve (cwd fs) p"
proof -
  let ?r = "rooted p"
  let ?out = "clean_elems ?r [] (elems p)"
  have inv0: "clean_inv ?r []" by (simp add: clean_inv_def)
  have inv: "clean_inv ?r ?out" by (rule clean_elems_inv [OF inv0])
  have sep: "\<forall>e\<in>set ?out. CHR ''/'' \<notin> set e"
    using clean_elems_no_sep [of "[]" "elems p" _ ?r] elems_no_sep [of _ p] by auto
  show ?thesis
  proof (cases ?r)
    case True
    have c: "Clean p = CHR ''/'' # join_elems ?out"
      using True by (simp add: Clean_def Let_def)
    have "lex_resolve (cwd fs) (Clean p) = lex_walk [] (elems (CHR ''/'' # join_elems ?out))"
      unfolding c by (simp add: lex_resolve_def rooted_def)
    also have "\<dots> = lex_walk [] (elems (join_elems ?out))" by simp
    also have "\<dots> = lex_walk [] ?out" by (rule lex_walk_elems_join_elems [OF sep])
    also have "\<dots> = lex_walk (lex_walk [] []) (elems p)"
      using lex_walk_clean_elems [OF inv0, of "[]" "elems p"] by simp
    also have "\<dots> = lex_resolve (cwd fs) p" using True by (simp add: lex_resolve_def)
    finally show ?thesis .
  next
    case False
    show ?thesis
    proof (cases "?out = []")
      case True
      have c: "Clean p = ''.''" using False True by (simp add: Clean_def Let_def)
      have "lex_walk (cwd fs) ?out = lex_walk (lex_walk (cwd fs) []) (elems p)"
        using lex_walk_clean_elems [OF inv0, of "cwd fs" "elems p"] False by simp
      then have "lex_walk (cwd fs) (elems p) = cwd fs" using True by simp
      then show ?thesis unfolding c using False by (simp add: lex_resolve_def rooted_def)
    next
      case ne: False
      have c: "Clean p = join_elems ?out" using False ne by (simp add: Clean_def Let_def)
      have nr: "\<not> rooted (join_elems ?out)" by (rule rooted_join_elems [OF inv sep])
      have "lex_resolve (cwd fs) (Clean p) = lex_walk (cwd fs) (elems (join_elems ?out))"
        unfolding c using nr by (simp add: lex_resolve_def)
      also have "\<dots> = lex_walk (cwd fs) ?out" by (rule lex_walk_elems_join_elems [OF sep])
      also have "\<dots> = lex_walk (lex_walk (cwd fs) []) (elems p)"
        using lex_walk_clean_elems [OF inv0, of "cwd fs" "elems p"] False by simp
      also have "\<dots> = lex_resolve (cwd fs) p" using False by (simp add: lex_resolve_def)
      finally show ?thesis .
    qed
  qed
qed

lemma valid_name_normal: "valid_name n \<Longrightarrow> normal n"
  by (simp add: valid_name_def normal_def)

lemma lex_resolve_Join:
  assumes "valid_name n"
  shows "lex_resolve (cwd fs) (Join p n) = lex_resolve (cwd fs) p @ [n]"
proof -
  have ns: "CHR ''/'' \<notin> set n" and nn: "normal n" and ne: "n \<noteq> []"
    using assms by (simp_all add: valid_name_def normal_def)
  have nr: "\<not> rooted n" using ns ne by (cases n) (auto simp: rooted_def)
  show ?thesis
  proof (cases "p = []")
    case True
    then have "lex_resolve (cwd fs) (Join p n) = lex_resolve (cwd fs) n"
      using ne by (simp add: Join_def lex_resolve_Clean)
    also have "\<dots> = cwd fs @ [n]"
      using nr nn by (simp add: lex_resolve_def elems_no_sep_id [OF ns] normal_def)
    also have "\<dots> = lex_resolve (cwd fs) p @ [n]"
      using True by (simp add: lex_resolve_def rooted_def)
    finally show ?thesis .
  next
    case False
    have r: "rooted (p @ CHR ''/'' # n) = rooted p"
      using False by (cases p) (simp_all add: rooted_def)
    have "lex_resolve (cwd fs) (Join p n) = lex_resolve (cwd fs) (p @ CHR ''/'' # n)"
      using False by (simp add: Join_def lex_resolve_Clean)
    also have "\<dots> = lex_walk (if rooted p then [] else cwd fs) (elems p @ [n])"
      unfolding lex_resolve_def r by (simp add: elems_append_sep elems_no_sep_id [OF ns])
    also have "\<dots> = lex_resolve (cwd fs) p @ [n]"
      unfolding lex_resolve_def by (rule lex_walk_snoc_normal [OF nn])
    finally show ?thesis .
  qed
qed

lemma lookup_snoc:
  "lookup n (p @ [e]) =
     (case lookup n p of
        Inl err \<Rightarrow> Inl err
      | Inr (File c) \<Rightarrow> Inl ENOTDIR
      | Inr (Dir es) \<Rightarrow> (case child es e of None \<Rightarrow> Inl ENOENT | Some c \<Rightarrow> Inr c))"
  by (induction n p rule: lookup.induct) (auto split: option.splits node.splits sum.splits)

lemma map_of_size: "map_of es n = Some c \<Longrightarrow> size c < size (Dir es)"
  by (induction es) (auto split: if_splits)

lemma dir_entries_valid:
  "e \<in> set (dir_entries es) \<Longrightarrow> valid_name (EntryName e)"
  by (auto simp: dir_entries_def)

lemma dir_entries_IsDir:
  "e \<in> set (dir_entries es) \<Longrightarrow> IsDir e \<Longrightarrow> \<exists>x. child es (EntryName e) = Some (Dir x)"
  by (auto simp: dir_entries_def child_def split: option.splits node.splits)

text \<open>The path is a directory of the tree.\<close>

definition is_dir_at :: "node \<Rightarrow> string list \<Rightarrow> bool" where
  "is_dir_at r x \<longleftrightarrow> (\<exists>es. lookup r x = Inr (Dir es))"

lemma lookup_append:
  "lookup r (x @ y) = (case lookup r x of Inl e \<Rightarrow> Inl e | Inr n \<Rightarrow> lookup n y)"
  by (induction r x rule: lookup.induct) (auto split: option.splits)

lemma lookup_File: "lookup (File c) y = Inr (Dir es) \<Longrightarrow> False"
  by (cases y) auto

lemma is_dir_prefix: "is_dir_at r (x @ y) \<Longrightarrow> is_dir_at r x"
proof -
  assume "is_dir_at r (x @ y)"
  then obtain es where l: "lookup r (x @ y) = Inr (Dir es)" by (auto simp: is_dir_at_def)
  then obtain n where n: "lookup r x = Inr n" and y: "lookup n y = Inr (Dir es)"
    by (auto simp: lookup_append split: sum.splits)
  show ?thesis
  proof (cases n)
    case (File c)
    then show ?thesis using y lookup_File by blast
  next
    case (Dir x2)
    then show ?thesis using n by (simp add: is_dir_at_def)
  qed
qed

lemma is_dir_butlast: "is_dir_at r x \<Longrightarrow> is_dir_at r (butlast x)"
proof (cases "x = []")
  case True
  then show "is_dir_at r x \<Longrightarrow> ?thesis" by simp
next
  case False
  assume "is_dir_at r x"
  then have "is_dir_at r (butlast x @ [last x])" using False by simp
  then show ?thesis by (rule is_dir_prefix)
qed

lemma is_dir_funpow_butlast: "is_dir_at r x \<Longrightarrow> is_dir_at r ((butlast ^^ j) x)"
  by (induction j) (auto intro: is_dir_butlast)

lemma os_walk_lex: "os_walk r at es = Inr q \<Longrightarrow> q = lex_walk at es"
  by (induction r at es rule: os_walk.induct)
    (auto split: sum.splits node.splits if_splits)

lemma os_walk_Cons_dir: "os_walk r at (e # es) = Inr q \<Longrightarrow> is_dir_at r at"
  by (auto simp: is_dir_at_def split: sum.splits node.splits)

lemma os_walk_step:
  "is_dir_at r at \<Longrightarrow>
   os_walk r at (e # es) =
     (if e = [] \<or> e = ''.'' then os_walk r at es
      else if e = ''..'' then os_walk r (butlast at) es
      else os_walk r (at @ [e]) es)"
  by (auto simp: is_dir_at_def)

lemma os_walk_ups:
  "is_dir_at r at \<Longrightarrow>
   os_walk r at (replicate j ''..'' @ rest) = os_walk r ((butlast ^^ j) at) rest"
proof (induction j arbitrary: at)
  case 0
  then show ?case by simp
next
  case (Suc j)
  have "os_walk r at (replicate (Suc j) ''..'' @ rest) = os_walk r (butlast at) (replicate j ''..'' @ rest)"
    using os_walk_step [OF Suc.prems, of "''..''" "replicate j ''..'' @ rest"] by simp
  also have "\<dots> = os_walk r ((butlast ^^ j) (butlast at)) rest"
    by (rule Suc.IH [OF is_dir_butlast [OF Suc.prems]])
  also have "\<dots> = os_walk r ((butlast ^^ Suc j) at) rest"
    by (simp add: funpow_swap1)
  finally show ?case .
qed

lemma lex_walk_ups:
  "lex_walk at (replicate j ''..'' @ rest) = lex_walk ((butlast ^^ j) at) rest"
proof (induction j arbitrary: at)
  case 0
  then show ?case by simp
next
  case (Suc j)
  have "lex_walk at (replicate (Suc j) ''..'' @ rest) = lex_walk (butlast at) (replicate j ''..'' @ rest)"
    by simp
  also have "\<dots> = lex_walk ((butlast ^^ j) (butlast at)) rest" by (rule Suc.IH)
  also have "\<dots> = lex_walk ((butlast ^^ Suc j) at) rest" by (simp add: funpow_swap1)
  finally show ?case .
qed

lemma lex_walk_names: "\<forall>x\<in>set ns. normal x \<Longrightarrow> lex_walk a ns = a @ ns"
  by (induction ns arbitrary: a) (auto simp: normal_def)

lemma os_walk_names:
  "\<forall>x\<in>set ns. normal x \<Longrightarrow> normal n \<Longrightarrow> is_dir_at r (a @ ns) \<Longrightarrow>
   os_walk r a (ns @ [n]) = Inr (a @ ns @ [n])"
proof (induction ns arbitrary: a)
  case Nil
  then show ?case using os_walk_step [of r a n "[]"] by (simp add: normal_def)
next
  case (Cons x ns)
  have da: "is_dir_at r a" using Cons.prems(3) by (rule is_dir_prefix)
  have nx: "normal x" using Cons.prems(1) by simp
  have "os_walk r a ((x # ns) @ [n]) = os_walk r (a @ [x]) (ns @ [n])"
    using os_walk_step [OF da, of x "ns @ [n]"] nx by (simp add: normal_def)
  also have "\<dots> = Inr ((a @ [x]) @ ns @ [n])"
    using Cons.IH [of "a @ [x]"] Cons.prems by simp
  finally show ?case by simp
qed

text \<open>The elements that Clean leaves: \<open>..\<close> elements (none when rooted), then names.\<close>

definition clean_form :: "bool \<Rightarrow> string list \<Rightarrow> bool" where
  "clean_form r out \<longleftrightarrow>
     (\<exists>j ns. out = replicate j ''..'' @ ns \<and> (\<forall>x\<in>set ns. normal x) \<and> (r \<longrightarrow> j = 0))"

lemma clean_form_Nil: "clean_form r []"
  unfolding clean_form_def by (rule exI [of _ 0], rule exI [of _ "[]"]) simp

lemma clean_form_snoc: "clean_form r out \<Longrightarrow> normal e \<Longrightarrow> clean_form r (out @ [e])"
proof -
  assume "clean_form r out" and e: "normal e"
  then obtain j ns where o: "out = replicate j ''..'' @ ns" "\<forall>x\<in>set ns. normal x" "r \<longrightarrow> j = 0"
    unfolding clean_form_def by blast
  show ?thesis unfolding clean_form_def
    by (rule exI [of _ j], rule exI [of _ "ns @ [e]"]) (use o e in simp)
qed

lemma clean_form_butlast:
  assumes "clean_form r out" and "out \<noteq> []" and "last out \<noteq> ''..''"
  shows "clean_form r (butlast out)"
proof -
  from assms(1) obtain j ns where o: "out = replicate j ''..'' @ ns" "\<forall>x\<in>set ns. normal x" "r \<longrightarrow> j = 0"
    unfolding clean_form_def by blast
  have "ns \<noteq> []"
  proof
    assume "ns = []"
    then have "out = replicate j ''..''" using o by simp
    then have "last out \<in> set (replicate j ''..'')" using assms(2) last_in_set by metis
    then show False using assms(3) by simp
  qed
  then have b: "butlast out = replicate j ''..'' @ butlast ns"
    using o by (simp add: butlast_append)
  have "\<forall>x\<in>set (butlast ns). normal x" using o(2) by (meson in_set_butlastD)
  then show ?thesis unfolding clean_form_def
    by (intro exI [of _ j] exI [of _ "butlast ns"]) (use b o in simp)
qed

lemma clean_form_up:
  assumes "clean_form r out" and "\<not> (out \<noteq> [] \<and> last out \<noteq> ''..'')" and "\<not> r"
  shows "clean_form r (out @ [''..''])"
proof -
  from assms(1) obtain j ns where o: "out = replicate j ''..'' @ ns" "\<forall>x\<in>set ns. normal x"
    unfolding clean_form_def by blast
  have "ns = []"
  proof (rule ccontr)
    assume n: "ns \<noteq> []"
    then have "last out = last ns" "out \<noteq> []" using o by simp_all
    moreover have "normal (last ns)" using n o(2) by simp
    ultimately show False using assms(2) by (auto simp: normal_def)
  qed
  then have "out @ [''..''] = replicate (Suc j) ''..'' @ []"
    using o by (simp add: replicate_append_same)
  then show ?thesis unfolding clean_form_def using assms(3) by (metis empty_iff list.set(1))
qed

lemma clean_elems_form:
  "clean_form r out \<Longrightarrow> clean_form r (clean_elems r out es)"
proof (induction r out es rule: clean_elems.induct)
  case (1 r out)
  then show ?case by simp
next
  case (2 r out e es)
  consider (skip) "e = [] \<or> e = ''.''"
    | (up) "\<not> (e = [] \<or> e = ''.'')" "e = ''..''" "out \<noteq> [] \<and> last out \<noteq> ''..''"
    | (top) "\<not> (e = [] \<or> e = ''.'')" "e = ''..''" "\<not> (out \<noteq> [] \<and> last out \<noteq> ''..'')" "r"
    | (keep) "\<not> (e = [] \<or> e = ''.'')" "e = ''..''" "\<not> (out \<noteq> [] \<and> last out \<noteq> ''..'')" "\<not> r"
    | (name) "\<not> (e = [] \<or> e = ''.'')" "e \<noteq> ''..''"
    by blast
  then show ?case
  proof cases
    case skip
    then show ?thesis using "2.IH"(1) "2.prems" by auto
  next
    case up
    have "clean_form r (butlast out)" using clean_form_butlast [OF "2.prems"] up by simp
    then show ?thesis using "2.IH"(2) [OF up] up by simp
  next
    case top
    then show ?thesis using "2.IH"(3) [OF top "2.prems"] by auto
  next
    case keep
    have "clean_form r (out @ [''..''])" by (rule clean_form_up [OF "2.prems" keep(3,4)])
    then show ?thesis using "2.IH"(4) [OF keep] keep by auto
  next
    case name
    have "normal e" using name by (simp add: normal_def)
    then have "clean_form r (out @ [e])" by (rule clean_form_snoc [OF "2.prems"])
    then show ?thesis using "2.IH"(5) [OF name] name by auto
  qed
qed

lemma clean_elems_append:
  "clean_elems r out (xs @ ys) = clean_elems r (clean_elems r out xs) ys"
  by (induction r out xs rule: clean_elems.induct) auto

lemma clean_inv_Nil: "clean_inv r []"
  by (simp add: clean_inv_def)

lemma Clean_snoc_elems:
  assumes "p \<noteq> []" and "valid_name n"
  defines "out' \<equiv> clean_elems (rooted p) [] (elems p)"
  shows "Clean (p @ CHR ''/'' # n) \<noteq> []"
    and "rooted (Clean (p @ CHR ''/'' # n)) = rooted p"
    and "elems (Clean (p @ CHR ''/'' # n)) = (if rooted p then [[]] else []) @ out' @ [n]"
proof -
  let ?s = "p @ CHR ''/'' # n"
  have ns: "CHR ''/'' \<notin> set n" and nn: "normal n"
    using assms(2) by (simp_all add: valid_name_def normal_def)
  have r: "rooted ?s = rooted p" using assms(1) by (cases p) (simp_all add: rooted_def)
  have e: "elems ?s = elems p @ [n]" by (simp add: elems_append_sep elems_no_sep_id [OF ns])
  have o: "clean_elems (rooted p) [] (elems ?s) = out' @ [n]"
    unfolding e clean_elems_append out'_def using nn by (simp add: normal_def)
  have inv: "clean_inv (rooted p) (out' @ [n])"
    using clean_elems_inv [OF clean_inv_Nil, of "rooted p" "elems ?s"] o by simp
  have sep: "\<forall>e\<in>set (out' @ [n]). CHR ''/'' \<notin> set e"
    using clean_elems_no_sep [of "[]" "elems ?s" _ "rooted p"] elems_no_sep [of _ ?s] o by auto
  have c: "Clean ?s = (if rooted p then CHR ''/'' # join_elems (out' @ [n]) else join_elems (out' @ [n]))"
    by (simp add: Clean_def r o)
  have j: "join_elems (out' @ [n]) \<noteq> []"
  proof
    assume "join_elems (out' @ [n]) = []"
    then have "elems (join_elems (out' @ [n])) = [[]]" by simp
    then have "out' @ [n] = [[]]" using elems_join_elems [OF _ sep] by simp
    then show False using nn by (cases out') (auto simp: normal_def)
  qed
  show "Clean ?s \<noteq> []" using c j by simp
  have nr: "\<not> rooted (join_elems (out' @ [n]))" by (rule rooted_join_elems [OF inv sep])
  show "rooted (Clean ?s) = rooted p" using c nr by (simp add: rooted_def)
  show "elems (Clean ?s) = (if rooted p then [[]] else []) @ out' @ [n]"
    using c elems_join_elems [OF _ sep] by simp
qed

lemma os_walk_empty: "is_dir_at r at \<Longrightarrow> os_walk r at ([] # es) = os_walk r at es"
  by (auto simp: is_dir_at_def)

lemma resolve_Join_entry:
  assumes "resolve fs p = Inr q" and "is_dir_at (root fs) q" and "valid_name n"
  shows "resolve fs (Join p n) = Inr (q @ [n])"
proof -
  let ?r = "rooted p"
  let ?start = "if ?r then [] else cwd fs"
  let ?out' = "clean_elems ?r [] (elems p)"
  have pne: "p \<noteq> []" using assms(1) by (auto simp: resolve_def split: if_splits)
  have w: "os_walk (root fs) ?start (elems p) = Inr q"
    using assms(1) pne by (simp add: resolve_def)
  have nn: "normal n" using assms(3) by (rule valid_name_normal)
  obtain e es where ep: "elems p = e # es" using elems_nonempty [of p] by (cases "elems p") auto
  have ds: "is_dir_at (root fs) ?start" using w unfolding ep by (rule os_walk_Cons_dir)
  have "clean_form ?r ?out'" by (rule clean_elems_form [OF clean_form_Nil])
  then obtain j ns where o: "?out' = replicate j ''..'' @ ns" and nsn: "\<forall>x\<in>set ns. normal x"
    and rj: "?r \<longrightarrow> j = 0"
    unfolding clean_form_def by blast
  have "q = lex_walk ?start (elems p)" by (rule os_walk_lex [OF w])
  also have "\<dots> = lex_walk (lex_walk ?start []) (elems p)" by simp
  also have "\<dots> = lex_walk ?start ?out'"
    by (rule lex_walk_clean_elems [OF clean_inv_Nil, symmetric]) simp
  also have "\<dots> = (butlast ^^ j) ?start @ ns"
    unfolding o lex_walk_ups by (rule lex_walk_names [OF nsn])
  finally have q: "q = (butlast ^^ j) ?start @ ns" .
  have dq: "is_dir_at (root fs) ((butlast ^^ j) ?start @ ns)" using assms(2) q by simp
  have j: "Join p n = Clean (p @ CHR ''/'' # n)" using pne by (simp add: Join_def)
  note c = Clean_snoc_elems [OF pne assms(3)]
  have "resolve fs (Join p n) = os_walk (root fs) ?start ((if ?r then [[]] else []) @ ?out' @ [n])"
    unfolding j resolve_def using c by (simp del: os_walk.simps)
  also have "\<dots> = os_walk (root fs) ?start (?out' @ [n])"
    using os_walk_empty [OF ds, of "?out' @ [n]"] by (cases ?r) (simp_all del: os_walk.simps)
  also have "\<dots> = os_walk (root fs) ?start (replicate j ''..'' @ (ns @ [n]))"
    unfolding o by simp
  also have "\<dots> = os_walk (root fs) ((butlast ^^ j) ?start) (ns @ [n])"
    by (rule os_walk_ups [OF ds])
  also have "\<dots> = Inr ((butlast ^^ j) ?start @ ns @ [n])"
    by (rule os_walk_names [OF nsn nn dq])
  finally show ?thesis using q by simp
qed

text \<open>The size of the tree under a path: it falls with every step of the traversal.\<close>

definition node_size :: "filesys \<Rightarrow> string \<Rightarrow> nat" where
  "node_size fs p = (case node_at fs p of Inl e \<Rightarrow> 0 | Inr n \<Rightarrow> size n)"

lemma ReadDir_Inr:
  assumes "ReadDir fs p = Inr pathEntries"
  obtains q es where "resolve fs p = Inr q" and "lookup (root fs) q = Inr (Dir es)"
    and "pathEntries = dir_entries es"
  using assms by (auto simp: ReadDir_def node_at_def split: sum.splits node.splits)

lemma node_at_entry:
  assumes "resolve fs p = Inr q" and "lookup (root fs) q = Inr (Dir es)" and "valid_name n"
  shows "node_at fs (Join p n) = (case child es n of None \<Rightarrow> Inl ENOENT | Some c \<Rightarrow> Inr c)"
proof -
  have d: "is_dir_at (root fs) q" using assms(2) by (auto simp: is_dir_at_def)
  show ?thesis
    by (simp add: node_at_def resolve_Join_entry [OF assms(1) d assms(3)] lookup_snoc assms(2))
qed

lemma node_size_entry:
  assumes "ReadDir fs p = Inr pathEntries" and "e \<in> set pathEntries" and "IsDir e"
  shows "node_size fs (Join p (EntryName e)) < node_size fs p"
proof -
  from assms(1) obtain q es where r: "resolve fs p = Inr q"
    and l: "lookup (root fs) q = Inr (Dir es)" and pe: "pathEntries = dir_entries es"
    by (rule ReadDir_Inr)
  from assms(2,3) pe obtain x where c: "child es (EntryName e) = Some (Dir x)"
    using dir_entries_IsDir by blast
  have v: "valid_name (EntryName e)" using assms(2) pe dir_entries_valid by blast
  have m: "map_of es (EntryName e) = Some (Dir x)"
    using c by (simp add: child_def split: if_splits)
  have "node_at fs (Join p (EntryName e)) = Inr (Dir x)"
    by (simp add: node_at_entry [OF r l v] c)
  moreover have "node_at fs p = Inr (Dir es)" using r l by (simp add: node_at_def)
  ultimately show ?thesis
    using map_of_size [OF m] by (simp add: node_size_def)
qed

function traverseCollection ::
  "filesys \<Rightarrow> Collection \<Rightarrow> Collection option \<Rightarrow> string
     \<Rightarrow> error option \<times> Collection \<times> Collection option" where
  "traverseCollection fs collection previousCollection p =
     (case ReadDir fs p of
        Inl e \<Rightarrow> (Some (OsError e), collection, previousCollection)
      | Inr pathEntries \<Rightarrow>
          (let isCollection = list_ex IsDir pathEntries;
               isDocument = list_ex (\<lambda>pathEntry. \<not> IsDir pathEntry) pathEntries
           in if isDocument \<and> isCollection then (Some ErrInvalidPath, collection, previousCollection)
              else if isDocument then
                (case previousCollection of
                   None \<Rightarrow> (Some ErrInvalidPath, collection, None)
                 | Some prev \<Rightarrow>
                     (case Collection_Document (Collection_DeleteCollection prev (Base p)) (Base p) of
                        (document, prev') \<Rightarrow>
                          (case read_fields fs p document pathEntries of
                             (err, document') \<Rightarrow>
                               (err, collection, Some (put_document prev' (Base p) document')))))
              else if isCollection then
                (case pathEntries of
                   [] \<Rightarrow> (None, collection, previousCollection)
                 | collectionEntry # rest \<Rightarrow>
                     (case Collection_Collection collection (EntryName collectionEntry) of
                        (c, collection') \<Rightarrow>
                          (case traverseCollection fs c (Some collection')
                                  (Join p (EntryName collectionEntry)) of
                             (err, c', None) \<Rightarrow> (err, collection', previousCollection)
                           | (err, c', Some collection'') \<Rightarrow>
                               (err, put_collection collection'' (EntryName collectionEntry) c',
                                previousCollection))))
              else (None, collection, previousCollection)))"
  by pat_completeness auto
termination
proof (relation "measure (\<lambda>(fs, collection, previousCollection, p). node_size fs p)")
  show "wf (measure (\<lambda>(fs, collection, previousCollection, p). node_size fs p))" by simp
next
  fix fs :: filesys and collection :: Collection and previousCollection :: "Collection option"
    and p :: string and pathEntries :: "DirEntry list" and isCollection isDocument :: bool
    and collectionEntry :: DirEntry and rest :: "DirEntry list" and x :: "Collection \<times> Collection"
    and c collection' :: Collection
  assume r: "ReadDir fs p = Inr pathEntries"
    and ic: "isCollection = list_ex IsDir pathEntries"
    and idoc: "isDocument = list_ex (\<lambda>pathEntry. \<not> IsDir pathEntry) pathEntries"
    and "\<not> (isDocument \<and> isCollection)" and nd: "\<not> isDocument" and "isCollection"
    and pe: "pathEntries = collectionEntry # rest"
  have "IsDir collectionEntry" using nd idoc pe by (simp add: list_ex_iff)
  then have "node_size fs (Join p (EntryName collectionEntry)) < node_size fs p"
    using node_size_entry [OF r, of collectionEntry] pe by simp
  then show "((fs, c, Some collection', Join p (EntryName collectionEntry)),
              fs, collection, previousCollection, p)
             \<in> measure (\<lambda>(fs, collection, previousCollection, p). node_size fs p)"
    by simp
qed

declare traverseCollection.simps [simp del]

text \<open>
  The loop of \<^verbatim>\<open>Open\<close> over the entries of the root directory, and \<^verbatim>\<open>Open\<close> itself: the
  Datastore, the error, and the file system afterwards (\<^verbatim>\<open>Open\<close> creates a missing
  directory).
\<close>

fun open_entries ::
  "filesys \<Rightarrow> string \<Rightarrow> Datastore \<Rightarrow> DirEntry list \<Rightarrow> Datastore \<times> error option" where
  "open_entries fs p datastore [] = (datastore, None)"
| "open_entries fs p datastore (entry # rest) =
     (if \<not> IsDir entry then (datastore, Some ErrInvalidPath)
      else (case Datastore_Collection datastore (EntryName entry) of
              (collection, datastore') \<Rightarrow>
                (case traverseCollection fs collection None (Join p (EntryName entry)) of
                   (err, collection', prev) \<Rightarrow>
                     (let datastore'' = datastore'\<lparr>ds_collections :=
                            tsm_Set (EntryName entry) collection' (ds_collections datastore')\<rparr>
                      in case err of
                           Some e \<Rightarrow> (datastore'', Some e)
                         | None \<Rightarrow> open_entries fs p datastore'' rest))))"

definition Open :: "filesys \<Rightarrow> string \<Rightarrow> (Datastore \<times> error option) \<times> filesys" where
  "Open fs p =
     (let datastore = NewDatastore p
      in case Stat fs p of
           Inl e \<Rightarrow>
             (if e = ENOENT
              then (case MkdirAll fs p of
                      Inl e' \<Rightarrow> ((datastore, Some (OsError e')), fs)
                    | Inr fs' \<Rightarrow> ((datastore, None), fs'))
              else ((datastore, Some (OsError e)), fs))
         | Inr isdir \<Rightarrow>
             (if \<not> isdir then ((datastore, Some ErrInvalidPath), fs)
              else (case ReadDir fs p of
                      Inl e \<Rightarrow> ((datastore, Some (OsError e)), fs)
                    | Inr entries \<Rightarrow> (open_entries fs p datastore entries, fs))))"

subsection \<open>Close\<close>

text \<open>
  \<^verbatim>\<open>Close\<close> ranges over the maps \<^verbatim>\<open>document.data.Data\<close>, \<^verbatim>\<open>c.documents.Data\<close>,
  \<^verbatim>\<open>c.collections.Data\<close> and \<^verbatim>\<open>d.collections.Data\<close>; each loop is a function on the list
  of the map, and the first error ends them all. \<open>dpath\<close> is \<^verbatim>\<open>d.path\<close>.
\<close>

fun write_fields ::
  "filesys \<Rightarrow> string \<Rightarrow> (string \<times> byte list) list \<Rightarrow> error option \<times> filesys" where
  "write_fields fs documentPath [] = (None, fs)"
| "write_fields fs documentPath ((file, bytes) # rest) =
     (case WriteFile fs (Join documentPath file) (EncodeToString bytes) of
        Inl e \<Rightarrow> (Some (OsError e), fs)
      | Inr fs' \<Rightarrow> write_fields fs' documentPath rest)"

fun write_documents ::
  "filesys \<Rightarrow> string \<Rightarrow> (string \<times> Document) list \<Rightarrow> error option \<times> filesys" where
  "write_documents fs collectionPath [] = (None, fs)"
| "write_documents fs collectionPath ((documentName, document) # rest) =
     (case MkdirAll fs (Join collectionPath documentName) of
        Inl e \<Rightarrow> (Some (OsError e), fs)
      | Inr fs1 \<Rightarrow>
          (case write_fields fs1 (Join collectionPath documentName) (data document) of
             (Some e, fs2) \<Rightarrow> (Some e, fs2)
           | (None, fs2) \<Rightarrow> write_documents fs2 collectionPath rest))"

fun flushCollection :: "string \<Rightarrow> filesys \<Rightarrow> string \<Rightarrow> Collection \<Rightarrow> error option \<times> filesys"
  and flushCollections ::
    "string \<Rightarrow> filesys \<Rightarrow> string \<Rightarrow> (string \<times> Collection) list \<Rightarrow> error option \<times> filesys" where
  "flushCollection dpath fs nm (Collection n ds cs) =
     (case MkdirAll fs (Join dpath nm) of
        Inl e \<Rightarrow> (Some (OsError e), fs)
      | Inr fs1 \<Rightarrow>
          (case write_documents fs1 (Join dpath nm) ds of
             (Some e, fs2) \<Rightarrow> (Some e, fs2)
           | (None, fs2) \<Rightarrow> flushCollections dpath fs2 nm cs))"
| "flushCollections dpath fs nm [] = (None, fs)"
| "flushCollections dpath fs nm ((collectionName, collection) # rest) =
     (case flushCollection dpath fs (Join nm collectionName) collection of
        (Some e, fs') \<Rightarrow> (Some e, fs')
      | (None, fs') \<Rightarrow> flushCollections dpath fs' nm rest)"

fun flush_all :: "string \<Rightarrow> filesys \<Rightarrow> (string \<times> Collection) list \<Rightarrow> error option \<times> filesys" where
  "flush_all dpath fs [] = (None, fs)"
| "flush_all dpath fs ((collectionName, collection) # rest) =
     (case flushCollection dpath fs collectionName collection of
        (Some e, fs') \<Rightarrow> (Some e, fs')
      | (None, fs') \<Rightarrow> flush_all dpath fs' rest)"

definition Close :: "Datastore \<Rightarrow> filesys \<Rightarrow> error option \<times> filesys" where
  "Close d fs = flush_all (path d) fs (ds_collections d)"



subsection \<open>A small codec for running the model\<close>

text \<open>
  A codec for one-byte values, used where the model is run on concrete inputs: a value
  is written as a tag byte 1 and the value; any other message is refused and leaves the
  target variable as it was.
\<close>

definition byte_gob :: "byte gob" where
  "byte_gob =
     \<lparr>gob_encode = (\<lambda>v. Inr [1, v]),
      gob_decode = (\<lambda>b v. case b of
          [t, x] \<Rightarrow> if t = 1 then (None, x) else (Some ''gob: type mismatch'', v)
        | _ \<Rightarrow> (Some ''unexpected EOF'', v))\<rparr>"

text \<open>A default function that counts its calls in the caller's state.\<close>

definition counting_default :: "'v \<Rightarrow> nat \<Rightarrow> 'v \<times> nat" where
  "counting_default v n = (v, Suc n)"

subsection \<open>Documents built by the public operations\<close>

text \<open>
  A document built through the public surface starts as \<^verbatim>\<open>NewDocument\<close> and takes a
  sequence of calls of \<^verbatim>\<open>Set\<close>, \<^verbatim>\<open>RawSet\<close> and \<^verbatim>\<open>Delete\<close>. A \<^verbatim>\<open>Set\<close> that fails leaves the
  document as it was.
\<close>

datatype 'v doc_op = DoSet string 'v | DoRawSet string "byte list" | DoDelete string

fun apply_op :: "'v gob \<Rightarrow> Document \<Rightarrow> 'v doc_op \<Rightarrow> Document" where
  "apply_op g d (DoSet key v) = snd (Document_Set g d key v)"
| "apply_op g d (DoRawSet key b) = Document_RawSet d key b"
| "apply_op g d (DoDelete key) = Document_Delete d key"

definition run_ops :: "'v gob \<Rightarrow> Document \<Rightarrow> 'v doc_op list \<Rightarrow> Document" where
  "run_ops g d ops = foldl (apply_op g) d ops"

text \<open>No field of the document holds empty bytes.\<close>

definition no_empty_field :: "Document \<Rightarrow> bool" where
  "no_empty_field d \<longleftrightarrow> (\<forall>key. tsm_Get (data d) key \<noteq> Some [])"

subsection \<open>Concrete file systems\<close>

text \<open>The directory \<open>/root/a\<close> holds the two empty directories \<open>b\<close> and \<open>c\<close>.\<close>

definition two_subdirs :: filesys where
  "two_subdirs =
     \<lparr>root = Dir [(''root'', Dir [(''a'', Dir [(''b'', Dir []), (''c'', Dir [])])])], cwd = []\<rparr>"

section \<open>Documents and items\<close>

lemma tsm_Get_Set_same: "tsm_Get (tsm_Set k v m) k = Some v"
  by (simp add: tsm_Get_def tsm_Set_def update_conv')

lemma tsm_Get_Set_other: "k' \<noteq> k \<Longrightarrow> tsm_Get (tsm_Set k v m) k' = tsm_Get m k'"
  by (simp add: tsm_Get_def tsm_Set_def update_conv')

lemma Document_GetAll_eq:
  "Document_GetAll d =
     replicate (length (data d)) Item_zero @ map (\<lambda>(k, v). \<lparr>Key = k, Value = v\<rparr>) (data d)"
proof -
  have "foldl (\<lambda>items (k, v). items @ [\<lparr>Key = k, Value = v\<rparr>]) acc xs =
        acc @ map (\<lambda>(k, v). \<lparr>Key = k, Value = v\<rparr>) xs"
    for acc and xs :: "(string \<times> byte list) list"
    by (induction xs arbitrary: acc) auto
  then show ?thesis by (simp add: Document_GetAll_def tsm_Len_def)
qed

text \<open>
  C3. \<^verbatim>\<open>GetAll\<close> is to give one Item per stored field and nothing else. On a document with
  the single field \<open>a\<close> it gives two Items: the slice starts out with \<^verbatim>\<open>Len()\<close> zero
  Items, and the field's Item is appended behind them.
\<close>

theorem GetAll_leading_zero_items:
  "Document_GetAll (Document_RawSet (NewDocument ''d'') ''a'' [1]) =
     [Item_zero, \<lparr>Key = ''a'', Value = [1]\<rparr>]"
  by (simp add: Document_GetAll_def Document_RawSet_def NewDocument_def NewMap_def
      tsm_Set_def tsm_Len_def)

text \<open>
  C4, as stated: the Value of \<^verbatim>\<open>Get(k)\<close> is empty exactly when \<open>k\<close> is absent. It fails
  after \<^verbatim>\<open>RawSet(k, [])\<close>: the key is present and the Value is empty.
\<close>

theorem Get_empty_present_counterexample:
  "\<not> (Value (Document_Get (Document_RawSet (NewDocument ''d'') ''k'' []) ''k'') = []
      \<longleftrightarrow> tsm_Get (data (Document_RawSet (NewDocument ''d'') ''k'' [])) ''k'' = None)"
  by (simp add: Document_Get_def Document_RawSet_def NewDocument_def NewMap_def tsm_Set_def
      tsm_Get_def)

lemma no_empty_field_apply_op:
  assumes "\<forall>v b. gob_encode g v = Inr b \<longrightarrow> b \<noteq> []"
    and "\<forall>key b. op = DoRawSet key b \<longrightarrow> b \<noteq> []"
    and "no_empty_field d"
  shows "no_empty_field (apply_op g d op)"
proof (cases op)
  case (DoSet key v)
  show ?thesis
  proof (cases "gob_encode g v")
    case (Inl msg)
    then show ?thesis using DoSet assms(3) by (simp add: Document_Set_def)
  next
    case (Inr b)
    then have "b \<noteq> []" using assms(1) by blast
    then show ?thesis using DoSet Inr assms(3)
      by (auto simp: Document_Set_def no_empty_field_def tsm_Get_def tsm_Set_def update_conv')
  qed
next
  case (DoRawSet key b)
  then have "b \<noteq> []" using assms(2) by blast
  then show ?thesis using DoRawSet assms(3)
    by (auto simp: Document_RawSet_def no_empty_field_def tsm_Get_def tsm_Set_def update_conv')
next
  case (DoDelete key)
  then show ?thesis using assms(3)
    by (auto simp: Document_Delete_def no_empty_field_def tsm_Get_def tsm_Delete_def delete_conv')
qed

lemma no_empty_field_foldl:
  assumes "\<forall>v b. gob_encode g v = Inr b \<longrightarrow> b \<noteq> []"
  shows "\<forall>op\<in>set ops. \<forall>key b. op = DoRawSet key b \<longrightarrow> b \<noteq> [] \<Longrightarrow> no_empty_field d \<Longrightarrow>
     no_empty_field (foldl (apply_op g) d ops)"
proof (induction ops arbitrary: d)
  case Nil
  then show ?case by simp
next
  case (Cons op ops)
  have "no_empty_field (apply_op g d op)"
    using no_empty_field_apply_op [OF assms _ Cons.prems(2)] Cons.prems(1) by simp
  then show ?case using Cons.IH Cons.prems(1) by simp
qed

text \<open>
  C4, amended. Let a document be built from \<^verbatim>\<open>NewDocument\<close> by calls of \<^verbatim>\<open>Set\<close>, \<^verbatim>\<open>Delete\<close>
  and \<^verbatim>\<open>RawSet\<close> in which every \<^verbatim>\<open>RawSet\<close> stores non-empty bytes (and the encoder, as gob
  does, never writes an empty message). Then the Value of \<^verbatim>\<open>Get(k)\<close> is empty exactly
  when \<open>k\<close> is absent. On any document, \<^verbatim>\<open>RawSet(k, [])\<close> makes \<open>k\<close> a present field whose
  Value is empty.
\<close>

theorem Get_Value_empty_iff_absent:
  assumes "\<forall>v b. gob_encode g v = Inr b \<longrightarrow> b \<noteq> []"
    and "\<forall>op\<in>set ops. \<forall>key b. op = DoRawSet key b \<longrightarrow> b \<noteq> []"
  shows "(Value (Document_Get (run_ops g (NewDocument n) ops) k) = [] \<longleftrightarrow>
            tsm_Get (data (run_ops g (NewDocument n) ops)) k = None) \<and>
         tsm_Get (data (Document_RawSet d k [])) k = Some [] \<and>
         Value (Document_Get (Document_RawSet d k []) k) = []"
proof -
  have "no_empty_field (NewDocument n)"
    by (simp add: no_empty_field_def NewDocument_def NewMap_def tsm_Get_def)
  then have "no_empty_field (run_ops g (NewDocument n) ops)"
    unfolding run_ops_def by (rule no_empty_field_foldl [OF assms])
  then have "tsm_Get (data (run_ops g (NewDocument n) ops)) k \<noteq> Some []"
    by (simp add: no_empty_field_def)
  then have 1: "Value (Document_Get (run_ops g (NewDocument n) ops) k) = [] \<longleftrightarrow>
            tsm_Get (data (run_ops g (NewDocument n) ops)) k = None"
    by (auto simp: Document_Get_def Item_zero_def split: option.splits)
  have 2: "tsm_Get (data (Document_RawSet d k [])) k = Some []"
    by (simp add: Document_RawSet_def tsm_Get_Set_same)
  have 3: "Value (Document_Get (Document_RawSet d k []) k) = []"
    using 2 by (simp add: Document_Get_def)
  show ?thesis using 1 2 3 by blast
qed

theorem Get_Value_empty_iff_absent_witness:
  "gob_encode byte_gob 5 = Inr [1, 5] \<and>
   Value (Document_Get (run_ops byte_gob (NewDocument ''d'')
            [DoSet ''a'' 5, DoRawSet ''b'' [1, 7], DoDelete ''a'']) ''b'') = [1, 7] \<and>
   tsm_Get (data (run_ops byte_gob (NewDocument ''d'')
            [DoSet ''a'' 5, DoRawSet ''b'' [1, 7], DoDelete ''a''])) ''b'' \<noteq> None \<and>
   Value (Document_Get (run_ops byte_gob (NewDocument ''d'')
            [DoSet ''a'' 5, DoRawSet ''b'' [1, 7], DoDelete ''a'']) ''a'') = [] \<and>
   tsm_Get (data (run_ops byte_gob (NewDocument ''d'')
            [DoSet ''a'' 5, DoRawSet ''b'' [1, 7], DoDelete ''a''])) ''a'' = None"
proof -
  have h1: "\<forall>v b. gob_encode byte_gob v = Inr b \<longrightarrow> b \<noteq> []"
    by (auto simp: byte_gob_def)
  have h2: "\<forall>op\<in>set [DoSet ''a'' (5 :: byte), DoRawSet ''b'' [1, 7], DoDelete ''a''].
      \<forall>key b. op = DoRawSet key b \<longrightarrow> b \<noteq> []"
    by simp
  have v: "Value (Document_Get (run_ops byte_gob (NewDocument ''d'')
            [DoSet ''a'' 5, DoRawSet ''b'' [1, 7], DoDelete ''a'']) ''b'') = [1, 7]"
    by (simp add: run_ops_def Document_Get_def Document_Set_def Document_RawSet_def
        Document_Delete_def NewDocument_def NewMap_def tsm_Get_def tsm_Set_def tsm_Delete_def
        byte_gob_def)
  have a: "tsm_Get (data (run_ops byte_gob (NewDocument ''d'')
            [DoSet ''a'' 5, DoRawSet ''b'' [1, 7], DoDelete ''a''])) ''a'' = None"
    by (simp add: run_ops_def Document_Set_def Document_RawSet_def
        Document_Delete_def NewDocument_def NewMap_def tsm_Get_def tsm_Set_def tsm_Delete_def
        byte_gob_def)
  have e: "gob_encode byte_gob 5 = Inr [1, 5]" by (simp add: byte_gob_def)
  from Get_Value_empty_iff_absent [OF h1 h2, of "''d''" "''b''"]
    Get_Value_empty_iff_absent [OF h1 h2, of "''d''" "''a''"] e v a
  show ?thesis by auto
qed

text \<open>
  C7. \<^verbatim>\<open>Decode\<close> fails with \<^verbatim>\<open>ErrInvalidDecode\<close> exactly when the target is not a non-nil
  pointer (the nil interface, a non-pointer or a nil pointer), whatever the Item holds;
  with a non-nil pointer it fails with \<^verbatim>\<open>ErrEmptyItem\<close> exactly when the Item's bytes are
  empty.
\<close>

theorem Decode_error_kinds:
  "((\<exists>ty. fst (Decode g i t) = Some (ErrInvalidDecode ty)) \<longleftrightarrow> (\<forall>v. t \<noteq> Pointer v)) \<and>
   (fst (Decode g i (Pointer v)) = Some ErrEmptyItem \<longleftrightarrow> Value i = [])"
  by (cases t) (auto split: prod.splits option.splits)

text \<open>
  C6. With a codec that encodes \<open>v\<close> to a non-empty message \<open>b\<close> and decodes \<open>b\<close> back to
  \<open>v\<close> (what it is for \<open>v\<close> to be gob-serializable; gob never writes an empty message),
  \<^verbatim>\<open>Set(k, v)\<close> succeeds and \<^verbatim>\<open>Get(k).Decode(&out)\<close> then succeeds and leaves \<open>v\<close> in \<open>out\<close>.
\<close>

theorem Set_Get_Decode:
  assumes "gob_encode g v = Inr b" and "b \<noteq> []" and "gob_decode g b out = (None, v)"
  shows "fst (Document_Set g d k v) = None \<and>
         Decode g (Document_Get (snd (Document_Set g d k v)) k) (Pointer out) = (None, Pointer v)"
  using assms by (simp add: Document_Set_def Document_Get_def tsm_Get_Set_same)

theorem Set_Get_Decode_witness:
  "gob_encode byte_gob 5 = Inr [1, 5] \<and> [1, 5 :: byte] \<noteq> [] \<and>
   gob_decode byte_gob [1, 5] 0 = (None, 5) \<and>
   fst (Document_Set byte_gob (NewDocument ''d'') ''k'' 5) = None \<and>
   Decode byte_gob (Document_Get (snd (Document_Set byte_gob (NewDocument ''d'') ''k'' 5)) ''k'')
     (Pointer 0) = (None, Pointer 5)"
proof -
  have h1: "gob_encode byte_gob 5 = Inr [1, 5]" by (simp add: byte_gob_def)
  have h2: "[1, 5 :: byte] \<noteq> []" by simp
  have h3: "gob_decode byte_gob [1, 5] 0 = (None, 5)" by (simp add: byte_gob_def)
  from Set_Get_Decode [OF h1 h2 h3, of "NewDocument ''d''" "''k''"] h1 h2 h3
  show ?thesis by blast
qed

section \<open>The default-value helpers\<close>

lemma is_ErrEmptyItem_Decode:
  "Decode g i (Pointer z) = (Some e, t) \<Longrightarrow> is_ErrEmptyItem e \<longleftrightarrow> e = ErrEmptyItem"
  by (auto split: if_splits prod.splits option.splits)

lemma GetWithDefault_None:
  assumes "Decode g (Document_Get doc key) (Pointer zero) = (None, Pointer v)"
  shows "GetWithDefault g zero doc key def s = (v, s)"
  unfolding GetWithDefault_def assms by simp

lemma GetWithDefault_Some:
  assumes "Decode g (Document_Get doc key) (Pointer zero) = (Some e, Pointer v)"
  shows "GetWithDefault g zero doc key def s = (if is_ErrEmptyItem e then def s else (v, s))"
  unfolding GetWithDefault_def assms by simp

lemma GetSetWithDefault_None:
  assumes "Decode g (Document_Get doc key) (Pointer zero) = (None, Pointer v)"
  shows "GetSetWithDefault g zero doc key def s = ((v, None), doc, s)"
  unfolding GetSetWithDefault_def assms by simp

lemma GetSetWithDefault_Some:
  assumes "Decode g (Document_Get doc key) (Pointer zero) = (Some e, Pointer v)"
  shows "GetSetWithDefault g zero doc key def s =
    (if is_ErrEmptyItem e
     then ((fst (def s), fst (Document_Set g doc key (fst (def s)))),
           snd (Document_Set g doc key (fst (def s))), snd (def s))
     else ((v, Some e), doc, s))"
  unfolding GetSetWithDefault_def assms by (simp add: split_beta)

text \<open>
  C5, as stated: every error of \<^verbatim>\<open>Decode\<close> other than \<^verbatim>\<open>ErrEmptyItem\<close> comes back to the
  caller of \<^verbatim>\<open>GetWithDefault\<close> unchanged. \<^verbatim>\<open>GetWithDefault\<close> returns a value only: on a
  field whose bytes the decoder refuses it returns the zero value, as it does on a field
  that holds an encoded zero, and the caller sees no error.
\<close>

theorem GetWithDefault_hides_error_counterexample:
  "fst (Decode byte_gob (Document_Get (Document_RawSet (NewDocument ''d'') ''k'' [2, 7]) ''k'')
         (Pointer 0)) = Some (GobError ''gob: type mismatch'') \<and>
   GetWithDefault byte_gob 0 (Document_RawSet (NewDocument ''d'') ''k'' [2, 7]) ''k''
     (counting_default 9) 0 = (0, 0) \<and>
   fst (Decode byte_gob (Document_Get (Document_RawSet (NewDocument ''d'') ''k'' [1, 0]) ''k'')
         (Pointer 0)) = None \<and>
   GetWithDefault byte_gob 0 (Document_RawSet (NewDocument ''d'') ''k'' [1, 0]) ''k''
     (counting_default 9) 0 = (0, 0)"
  by (simp add: GetWithDefault_def Document_Get_def Document_RawSet_def NewDocument_def
      NewMap_def tsm_Set_def tsm_Get_def byte_gob_def)

text \<open>
  C5, amended. Let \<^verbatim>\<open>Decode\<close> into a fresh variable give the error \<open>err\<close> and leave \<open>v\<close>
  in the variable. \<^verbatim>\<open>GetWithDefault\<close> calls \<open>def\<close> and returns its value exactly when
  \<open>err\<close> is \<^verbatim>\<open>ErrEmptyItem\<close>; otherwise it returns \<open>v\<close>, does not call \<open>def\<close> and reports
  nothing. \<^verbatim>\<open>GetSetWithDefault\<close> calls \<open>def\<close>, stores its value with \<^verbatim>\<open>Set\<close> and returns
  the value with the error of \<^verbatim>\<open>Set\<close> exactly when \<open>err\<close> is \<^verbatim>\<open>ErrEmptyItem\<close>; otherwise it
  returns \<open>v\<close> and \<open>err\<close> unchanged and leaves the document as it was.
\<close>

theorem default_helpers:
  assumes "Decode g (Document_Get doc key) (Pointer zero) = (err, Pointer v)"
  shows "GetWithDefault g zero doc key def s =
           (if err = Some ErrEmptyItem then def s else (v, s)) \<and>
         GetSetWithDefault g zero doc key def s =
           (if err = Some ErrEmptyItem
            then ((fst (def s), fst (Document_Set g doc key (fst (def s)))),
                  snd (Document_Set g doc key (fst (def s))), snd (def s))
            else ((v, err), doc, s))"
proof (cases err)
  case None
  then have d: "Decode g (Document_Get doc key) (Pointer zero) = (None, Pointer v)"
    using assms by simp
  show ?thesis
    unfolding GetWithDefault_None [OF d] GetSetWithDefault_None [OF d] None by simp
next
  case (Some e)
  then have d: "Decode g (Document_Get doc key) (Pointer zero) = (Some e, Pointer v)"
    using assms by simp
  have e: "is_ErrEmptyItem e \<longleftrightarrow> e = ErrEmptyItem"
    by (rule is_ErrEmptyItem_Decode [OF d])
  show ?thesis
    unfolding GetWithDefault_Some [OF d] GetSetWithDefault_Some [OF d] Some e by simp
qed

theorem default_helpers_witness:
  "Decode byte_gob (Document_Get (NewDocument ''d'') ''k'') (Pointer 0) =
     (Some ErrEmptyItem, Pointer 0) \<and>
   GetWithDefault byte_gob 0 (NewDocument ''d'') ''k'' (counting_default 9) 0 = (9, 1) \<and>
   GetSetWithDefault byte_gob 0 (NewDocument ''d'') ''k'' (counting_default 9) 0 =
     ((9, None), Document_RawSet (NewDocument ''d'') ''k'' [1, 9], 1)"
proof -
  have h: "Decode byte_gob (Document_Get (NewDocument ''d'') ''k'') (Pointer 0) =
      (Some ErrEmptyItem, Pointer 0)"
    by (simp add: Document_Get_def NewDocument_def NewMap_def tsm_Get_def Item_zero_def)
  have s: "Document_Set byte_gob (NewDocument ''d'') ''k'' 9 =
      (None, Document_RawSet (NewDocument ''d'') ''k'' [1, 9])"
    by (simp add: Document_Set_def Document_RawSet_def byte_gob_def)
  note w = default_helpers [OF h, of "counting_default 9" 0]
  show ?thesis
    unfolding h using w by (simp add: counting_default_def s del: Decode.simps)
qed

text \<open>
  C10. When the field holds non-empty bytes that the decoder refuses, \<^verbatim>\<open>Decode\<close> fails
  with the decoder's error, and \<^verbatim>\<open>GetWithDefault\<close> returns what the decoder left in the
  variable (the zero value, or a partly decoded one): it does not call \<open>def\<close>, whatever
  \<open>def\<close> is, and its result carries no error.
\<close>

theorem GetWithDefault_swallows_decode_error:
  assumes "tsm_Get (data doc) key = Some b" and "b \<noteq> []"
    and "gob_decode g b zero = (Some msg, v)"
  shows "fst (Decode g (Document_Get doc key) (Pointer zero)) = Some (GobError msg) \<and>
         GetWithDefault g zero doc key def s = (v, s)"
  using assms by (simp add: GetWithDefault_def Document_Get_def)

theorem GetWithDefault_swallows_decode_error_witness:
  "tsm_Get (data (Document_RawSet (NewDocument ''d'') ''k'' [2, 7])) ''k'' = Some [2, 7] \<and>
   [2, 7 :: byte] \<noteq> [] \<and>
   gob_decode byte_gob [2, 7] 0 = (Some ''gob: type mismatch'', 0) \<and>
   fst (Decode byte_gob (Document_Get (Document_RawSet (NewDocument ''d'') ''k'' [2, 7]) ''k'')
     (Pointer 0)) = Some (GobError ''gob: type mismatch'') \<and>
   GetWithDefault byte_gob 0 (Document_RawSet (NewDocument ''d'') ''k'' [2, 7]) ''k''
     (counting_default 9) 0 = (0, 0)"
proof -
  have h1: "tsm_Get (data (Document_RawSet (NewDocument ''d'') ''k'' [2, 7])) ''k'' = Some [2, 7]"
    by (simp add: Document_RawSet_def tsm_Get_Set_same)
  have h2: "[2, 7 :: byte] \<noteq> []" by simp
  have h3: "gob_decode byte_gob [2, 7] 0 = (Some ''gob: type mismatch'', 0)"
    by (simp add: byte_gob_def)
  from GetWithDefault_swallows_decode_error [OF h1 h2 h3, of "counting_default 9" 0] h1 h2 h3
  show ?thesis by blast
qed

section \<open>Collections\<close>

text \<open>
  C8. \<^verbatim>\<open>Set(k, nil)\<close> on a collection gives an error and leaves the collection as it was;
  if \<open>k\<close> was not found before, it is not found afterwards.
\<close>

theorem Collection_Set_nil:
  "fst (Collection_Set c k None) \<noteq> None \<and> snd (Collection_Set c k None) = c \<and>
   (Collection_Get c k = None \<longrightarrow> Collection_Get (snd (Collection_Set c k None)) k = None)"
  by (simp add: Collection_Set_def)

theorem Collection_Set_nil_witness:
  "Collection_Get (newCollection ''c'') ''k'' = None \<and>
   fst (Collection_Set (newCollection ''c'') ''k'' None) \<noteq> None \<and>
   snd (Collection_Set (newCollection ''c'') ''k'' None) = newCollection ''c'' \<and>
   Collection_Get (snd (Collection_Set (newCollection ''c'') ''k'' None)) ''k'' = None"
  using Collection_Set_nil [of "newCollection ''c''" "''k''"]
  by (simp add: Collection_Get_def newCollection_def NewMap_def tsm_Get_def)

section \<open>Loading a directory tree\<close>

text \<open>
  C2. A directory whose entries are all directories is a collection, and \<^verbatim>\<open>Open\<close> is to
  make a child collection for each of them and to go into each. On \<open>/root/a\<close> with the
  subdirectories \<open>b\<close> and \<open>c\<close> it makes the child \<open>b\<close> only: the loop over the entries
  returns in its first iteration, so \<open>c\<close> is neither created nor visited, and \<^verbatim>\<open>Open\<close>
  reports no error.
\<close>

theorem Open_skips_sibling:
  "ReadDir two_subdirs ''/root/a'' =
     Inr [\<lparr>EntryName = ''b'', IsDir = True\<rparr>, \<lparr>EntryName = ''c'', IsDir = True\<rparr>] \<and>
   Open two_subdirs ''/root'' =
     ((\<lparr>path = ''/root'',
        ds_collections = [(''a'', Collection ''a'' [] [(''b'', Collection ''b'' [] [])])]\<rparr>, None),
      two_subdirs)"
  by code_simp

end
